theory Spec2Isabelle
  imports Main
begin

section \<open>Python values used by the Connect Four engine\<close>

text \<open>
  The engine is the Python class \<open>ConnectFour\<close> of \<open>sourcecode.py\<close>. Its grid is a list
  of rows, each a list of integers (0 empty, 1 human, 2 AI). A read or a write through an
  index that is out of range raises \<open>IndexError\<close>; a negative index counts from the end
  of the list. Both are written into the model: every operation that touches the grid
  returns \<open>Inl IndexError\<close> where Python raises.
\<close>

datatype error = IndexError

text \<open>
  The search works with Python integers and the two floats \<open>-float('inf')\<close> and
  \<open>float('inf')\<close>; they are only compared, never added.
\<close>

datatype score = NegInf | Fin int | PosInf

instantiation score :: linorder
begin

fun less_eq_score :: "score \<Rightarrow> score \<Rightarrow> bool" where
  "less_eq_score NegInf _ = True"
| "less_eq_score (Fin a) NegInf = False"
| "less_eq_score (Fin a) (Fin b) = (a \<le> b)"
| "less_eq_score (Fin a) PosInf = True"
| "less_eq_score PosInf PosInf = True"
| "less_eq_score PosInf _ = False"

definition less_score :: "score \<Rightarrow> score \<Rightarrow> bool" where
  "less_score a b = (a \<le> b \<and> \<not> b \<le> a)"

instance
proof
  fix x y z :: score
  show "(x < y) = (x \<le> y \<and> \<not> y \<le> x)"
    by (simp add: less_score_def)
  show "x \<le> x"
    by (cases x) simp_all
  show "x \<le> y \<Longrightarrow> y \<le> z \<Longrightarrow> x \<le> z"
    by (cases x; cases y; cases z) simp_all
  show "x \<le> y \<Longrightarrow> y \<le> x \<Longrightarrow> x = y"
    by (cases x; cases y) simp_all
  show "x \<le> y \<or> y \<le> x"
    by (cases x; cases y) auto
qed

end

text \<open>\<open>xs[i]\<close>: the position a Python index denotes in a list of length \<open>n\<close>.\<close>

definition py_index :: "nat \<Rightarrow> int \<Rightarrow> error + nat" where
  "py_index n i =
     (if 0 \<le> i \<and> i < int n then Inr (nat i)
      else if - int n \<le> i \<and> i < 0 then Inr (nat (int n + i))
      else Inl IndexError)"

definition getitem :: "'a list \<Rightarrow> int \<Rightarrow> error + 'a" where
  "getitem xs i = (case py_index (length xs) i of Inl e \<Rightarrow> Inl e | Inr k \<Rightarrow> Inr (xs ! k))"

definition setitem :: "'a list \<Rightarrow> int \<Rightarrow> 'a \<Rightarrow> error + 'a list" where
  "setitem xs i v =
     (case py_index (length xs) i of Inl e \<Rightarrow> Inl e | Inr k \<Rightarrow> Inr (xs[k := v]))"

text \<open>\<open>range(a, b)\<close>, the integers from \<open>a\<close> up to \<open>b - 1\<close>.\<close>

definition range_py :: "int \<Rightarrow> int \<Rightarrow> int list" where
  "range_py a b = [a..b - 1]"

section \<open>The board\<close>

record ConnectFour =
  rows :: int
  cols :: int
  board :: "int list list"
  current_player :: int
  game_over :: bool
  winner :: "int option"

text \<open>\<open>__init__(rows, cols)\<close>\<close>

definition init :: "int \<Rightarrow> int \<Rightarrow> ConnectFour" where
  "init r c =
     \<lparr>rows = r, cols = c, board = replicate (nat r) (replicate (nat c) 0),
      current_player = 1, game_over = False, winner = None\<rparr>"

text \<open>\<open>self.board[row][col]\<close> and \<open>self.board[row][col] = v\<close>\<close>

definition get_cell :: "ConnectFour \<Rightarrow> int \<Rightarrow> int \<Rightarrow> error + int" where
  "get_cell g row col =
     (case getitem (board g) row of Inl e \<Rightarrow> Inl e | Inr r \<Rightarrow> getitem r col)"

definition set_cell :: "ConnectFour \<Rightarrow> int \<Rightarrow> int \<Rightarrow> int \<Rightarrow> error + ConnectFour" where
  "set_cell g row col v =
     (case py_index (length (board g)) row of
        Inl e \<Rightarrow> Inl e
      | Inr i \<Rightarrow>
          (case setitem (board g ! i) col v of
             Inl e \<Rightarrow> Inl e
           | Inr r \<Rightarrow> Inr (g\<lparr>board := (board g)[i := r]\<rparr>)))"

definition is_valid_move :: "ConnectFour \<Rightarrow> int \<Rightarrow> error + bool" where
  "is_valid_move g col =
     (if 0 \<le> col \<and> col < cols g
      then (case get_cell g 0 col of Inl e \<Rightarrow> Inl e | Inr v \<Rightarrow> Inr (v = 0))
      else Inr False)"

text \<open>The comprehension \<open>[col for col in range(self.cols) if self.is_valid_move(col)]\<close>.\<close>

fun filter_valid :: "ConnectFour \<Rightarrow> int list \<Rightarrow> error + int list" where
  "filter_valid g [] = Inr []"
| "filter_valid g (col # rest) =
     (case is_valid_move g col of
        Inl e \<Rightarrow> Inl e
      | Inr ok \<Rightarrow>
          (case filter_valid g rest of
             Inl e \<Rightarrow> Inl e
           | Inr vs \<Rightarrow> Inr (if ok then col # vs else vs)))"

definition get_valid_moves :: "ConnectFour \<Rightarrow> error + int list" where
  "get_valid_moves g = filter_valid g (range_py 0 (cols g))"

text \<open>
  \<open>make_move\<close>: the loop runs over \<open>range(self.rows-1, -1, -1)\<close>, the rows from the bottom
  one up. The result is the game after the call and the returned flag.
\<close>

fun drop_piece :: "ConnectFour \<Rightarrow> int list \<Rightarrow> int \<Rightarrow> int \<Rightarrow> error + (ConnectFour \<times> bool)" where
  "drop_piece g [] col player = Inr (g, False)"
| "drop_piece g (row # rest) col player =
     (case get_cell g row col of
        Inl e \<Rightarrow> Inl e
      | Inr v \<Rightarrow>
          if v = 0
          then (case set_cell g row col player of
                  Inl e \<Rightarrow> Inl e
                | Inr g' \<Rightarrow> Inr (g', True))
          else drop_piece g rest col player)"

definition make_move :: "ConnectFour \<Rightarrow> int \<Rightarrow> int \<Rightarrow> error + (ConnectFour \<times> bool)" where
  "make_move g col player =
     (case is_valid_move g col of
        Inl e \<Rightarrow> Inl e
      | Inr ok \<Rightarrow>
          if \<not> ok then Inr (g, False)
          else drop_piece g (rev (range_py 0 (rows g))) col player)"

text \<open>
  The windows of four cells, as the lists of (row, column) the four scans of
  \<open>check_winner\<close> and \<open>evaluate_board\<close> visit, in their order.
\<close>

definition horizontal_windows :: "ConnectFour \<Rightarrow> (int \<times> int) list list" where
  "horizontal_windows g =
     [[(row, col + i). i \<leftarrow> range_py 0 4]. row \<leftarrow> range_py 0 (rows g), col \<leftarrow> range_py 0 (cols g - 3)]"

definition vertical_windows :: "ConnectFour \<Rightarrow> (int \<times> int) list list" where
  "vertical_windows g =
     [[(row + i, col). i \<leftarrow> range_py 0 4]. row \<leftarrow> range_py 0 (rows g - 3), col \<leftarrow> range_py 0 (cols g)]"

definition diagonal_down_windows :: "ConnectFour \<Rightarrow> (int \<times> int) list list" where
  "diagonal_down_windows g =
     [[(row + i, col + i). i \<leftarrow> range_py 0 4]. row \<leftarrow> range_py 0 (rows g - 3), col \<leftarrow> range_py 0 (cols g - 3)]"

definition diagonal_up_windows :: "ConnectFour \<Rightarrow> (int \<times> int) list list" where
  "diagonal_up_windows g =
     [[(row + i, col - i). i \<leftarrow> range_py 0 4]. row \<leftarrow> range_py 0 (rows g - 3), col \<leftarrow> range_py 3 (cols g)]"

text \<open>\<open>all(self.board[r][c] == player for ...)\<close>: stops at the first cell that differs.\<close>

fun all_equal :: "ConnectFour \<Rightarrow> (int \<times> int) list \<Rightarrow> int \<Rightarrow> error + bool" where
  "all_equal g [] player = Inr True"
| "all_equal g ((r, c) # rest) player =
     (case get_cell g r c of
        Inl e \<Rightarrow> Inl e
      | Inr v \<Rightarrow> if v = player then all_equal g rest player else Inr False)"

text \<open>One of the four nested loops of \<open>check_winner\<close>: returns at the first full window.\<close>

fun any_window :: "ConnectFour \<Rightarrow> (int \<times> int) list list \<Rightarrow> int \<Rightarrow> error + bool" where
  "any_window g [] player = Inr False"
| "any_window g (w # ws) player =
     (case all_equal g w player of
        Inl e \<Rightarrow> Inl e
      | Inr found \<Rightarrow> if found then Inr True else any_window g ws player)"

definition check_winner :: "ConnectFour \<Rightarrow> int \<Rightarrow> error + bool" where
  "check_winner g player =
     (case any_window g (horizontal_windows g) player of
        Inl e \<Rightarrow> Inl e
      | Inr h \<Rightarrow>
          if h then Inr True
          else (case any_window g (vertical_windows g) player of
                  Inl e \<Rightarrow> Inl e
                | Inr v \<Rightarrow>
                    if v then Inr True
                    else (case any_window g (diagonal_down_windows g) player of
                            Inl e \<Rightarrow> Inl e
                          | Inr d \<Rightarrow>
                              if d then Inr True
                              else any_window g (diagonal_up_windows g) player)))"

text \<open>\<open>all(self.board[0][col] != 0 for col in range(self.cols))\<close>\<close>

fun all_nonzero :: "ConnectFour \<Rightarrow> int list \<Rightarrow> error + bool" where
  "all_nonzero g [] = Inr True"
| "all_nonzero g (col # rest) =
     (case get_cell g 0 col of
        Inl e \<Rightarrow> Inl e
      | Inr v \<Rightarrow> if v \<noteq> 0 then all_nonzero g rest else Inr False)"

definition is_board_full :: "ConnectFour \<Rightarrow> error + bool" where
  "is_board_full g = all_nonzero g (range_py 0 (cols g))"

section \<open>The static evaluator\<close>

definition evaluate_window :: "int list \<Rightarrow> int \<Rightarrow> int" where
  "evaluate_window window player =
     (let opponent = 3 - player;
          score = (if count_list window player = 4 then 100
                   else if count_list window player = 3 \<and> count_list window 0 = 1 then 5
                   else if count_list window player = 2 \<and> count_list window 0 = 2 then 2
                   else 0)
      in if count_list window opponent = 3 \<and> count_list window 0 = 1
         then score - 4 else score)"

text \<open>A comprehension that reads the cells at the given places, in order.\<close>

fun read_cells :: "ConnectFour \<Rightarrow> (int \<times> int) list \<Rightarrow> error + int list" where
  "read_cells g [] = Inr []"
| "read_cells g ((r, c) # rest) =
     (case get_cell g r c of
        Inl e \<Rightarrow> Inl e
      | Inr v \<Rightarrow>
          (case read_cells g rest of
             Inl e \<Rightarrow> Inl e
           | Inr vs \<Rightarrow> Inr (v # vs)))"

text \<open>One of the four nested loops of \<open>evaluate_board\<close>, adding to the running score.\<close>

fun add_windows :: "ConnectFour \<Rightarrow> (int \<times> int) list list \<Rightarrow> int \<Rightarrow> int \<Rightarrow> error + int" where
  "add_windows g [] player score = Inr score"
| "add_windows g (w # ws) player score =
     (case read_cells g w of
        Inl e \<Rightarrow> Inl e
      | Inr window \<Rightarrow> add_windows g ws player (score + evaluate_window window player))"

definition evaluate_board :: "ConnectFour \<Rightarrow> int \<Rightarrow> error + int" where
  "evaluate_board g player =
     (let center_col = cols g div 2 in
      case read_cells g [(row, center_col). row \<leftarrow> range_py 0 (rows g)] of
        Inl e \<Rightarrow> Inl e
      | Inr center_array \<Rightarrow>
          (case add_windows g (horizontal_windows g) player
                  (int (count_list center_array player) * 3) of
             Inl e \<Rightarrow> Inl e
           | Inr s1 \<Rightarrow>
               (case add_windows g (vertical_windows g) player s1 of
                  Inl e \<Rightarrow> Inl e
                | Inr s2 \<Rightarrow>
                    (case add_windows g (diagonal_down_windows g) player s2 of
                       Inl e \<Rightarrow> Inl e
                     | Inr s3 \<Rightarrow> add_windows g (diagonal_up_windows g) player s3))))"

section \<open>The search\<close>

fun next_open :: "ConnectFour \<Rightarrow> int list \<Rightarrow> int \<Rightarrow> error + int" where
  "next_open g [] col = Inr (- 1)"
| "next_open g (row # rest) col =
     (case get_cell g row col of
        Inl e \<Rightarrow> Inl e
      | Inr v \<Rightarrow> if v = 0 then Inr row else next_open g rest col)"

definition get_next_open_row :: "ConnectFour \<Rightarrow> int \<Rightarrow> error + int" where
  "get_next_open_row g col = next_open g (rev (range_py 0 (rows g))) col"

text \<open>
  The loop of the maximizing branch of \<open>minimax\<close> over the rest of \<open>valid_moves\<close>. The
  recursive call is the parameter \<open>search\<close>; \<open>v\<close> is the variable \<open>value\<close> and \<open>best\<close> the
  variable \<open>best_column\<close>. Every assignment to the grid goes through \<open>set_cell\<close>, so the
  game that comes back is the grid as the loop left it.
\<close>

fun max_loop ::
  "(ConnectFour \<Rightarrow> score \<Rightarrow> score \<Rightarrow> error + (ConnectFour \<times> int option \<times> score)) \<Rightarrow>
   ConnectFour \<Rightarrow> int list \<Rightarrow> score \<Rightarrow> score \<Rightarrow> score \<Rightarrow> int \<Rightarrow>
   error + (ConnectFour \<times> int \<times> score)" where
  "max_loop search g [] alpha beta v best = Inr (g, best, v)"
| "max_loop search g (col # rest) alpha beta v best =
     (case get_next_open_row g col of
        Inl e \<Rightarrow> Inl e
      | Inr row \<Rightarrow>
     (case set_cell g row col 2 of
        Inl e \<Rightarrow> Inl e
      | Inr g1 \<Rightarrow>
     (case search g1 alpha beta of
        Inl e \<Rightarrow> Inl e
      | Inr (g2, _, new_score) \<Rightarrow>
     (case set_cell g2 row col 0 of
        Inl e \<Rightarrow> Inl e
      | Inr g3 \<Rightarrow>
          (let v' = (if new_score > v then new_score else v);
               best' = (if new_score > v then col else best);
               alpha' = max alpha v'
           in if alpha' \<ge> beta then Inr (g3, best', v')
              else max_loop search g3 rest alpha' beta v' best')))))"

text \<open>The loop of the minimizing branch.\<close>

fun min_loop ::
  "(ConnectFour \<Rightarrow> score \<Rightarrow> score \<Rightarrow> error + (ConnectFour \<times> int option \<times> score)) \<Rightarrow>
   ConnectFour \<Rightarrow> int list \<Rightarrow> score \<Rightarrow> score \<Rightarrow> score \<Rightarrow> int \<Rightarrow>
   error + (ConnectFour \<times> int \<times> score)" where
  "min_loop search g [] alpha beta v best = Inr (g, best, v)"
| "min_loop search g (col # rest) alpha beta v best =
     (case get_next_open_row g col of
        Inl e \<Rightarrow> Inl e
      | Inr row \<Rightarrow>
     (case set_cell g row col 1 of
        Inl e \<Rightarrow> Inl e
      | Inr g1 \<Rightarrow>
     (case search g1 alpha beta of
        Inl e \<Rightarrow> Inl e
      | Inr (g2, _, new_score) \<Rightarrow>
     (case set_cell g2 row col 0 of
        Inl e \<Rightarrow> Inl e
      | Inr g3 \<Rightarrow>
          (let v' = (if new_score < v then new_score else v);
               best' = (if new_score < v then col else best);
               beta' = min beta v'
           in if alpha \<ge> beta' then Inr (g3, best', v')
              else min_loop search g3 rest alpha beta' v' best')))))"

text \<open>
  \<open>self.check_winner(1) or self.check_winner(2) or self.is_board_full()\<close>, evaluated
  left to right as Python's \<open>or\<close> does.
\<close>

definition is_terminal :: "ConnectFour \<Rightarrow> error + bool" where
  "is_terminal g =
     (case check_winner g 1 of
        Inl e \<Rightarrow> Inl e
      | Inr w1 \<Rightarrow>
          if w1 then Inr True
          else (case check_winner g 2 of
                  Inl e \<Rightarrow> Inl e
                | Inr w2 \<Rightarrow> if w2 then Inr True else is_board_full g))"

text \<open>The body of \<open>if depth == 0 or is_terminal:\<close>; the column it returns is \<open>None\<close>.\<close>

definition leaf_score :: "ConnectFour \<Rightarrow> error + score" where
  "leaf_score g =
     (case check_winner g 2 of
        Inl e \<Rightarrow> Inl e
      | Inr w2 \<Rightarrow>
          if w2 then Inr (Fin 1000000000)
          else (case check_winner g 1 of
                  Inl e \<Rightarrow> Inl e
                | Inr w1 \<Rightarrow>
                    if w1 then Inr (Fin (- 1000000000))
                    else (case is_board_full g of
                            Inl e \<Rightarrow> Inl e
                          | Inr full \<Rightarrow>
                              if full then Inr (Fin 0)
                              else (case evaluate_board g 2 of
                                      Inl e \<Rightarrow> Inl e
                                    | Inr s \<Rightarrow> Inr (Fin s)))))"

text \<open>
  \<open>minimax(depth, alpha, beta, maximizing_player)\<close>. The depth is a number of plies, a
  natural number here: \<open>play_game\<close> starts the search at the default depth 4, each level
  calls the next with \<open>depth - 1\<close>, and depth 0 returns before any further call. The result
  is the game after the call and the returned pair (column or \<open>None\<close>, score).
\<close>

fun minimax ::
  "ConnectFour \<Rightarrow> nat \<Rightarrow> score \<Rightarrow> score \<Rightarrow> bool \<Rightarrow> error + (ConnectFour \<times> int option \<times> score)" where
  "minimax g depth alpha beta maximizing_player =
     (case get_valid_moves g of
        Inl e \<Rightarrow> Inl e
      | Inr valid_moves \<Rightarrow>
     (case is_terminal g of
        Inl e \<Rightarrow> Inl e
      | Inr terminal \<Rightarrow>
          if depth = 0 \<or> terminal
          then (case leaf_score g of Inl e \<Rightarrow> Inl e | Inr s \<Rightarrow> Inr (g, None, s))
          else if maximizing_player
          then (case max_loop (\<lambda>g' a b. minimax g' (depth - 1) a b False) g valid_moves
                       alpha beta NegInf (case valid_moves of [] \<Rightarrow> 0 | c # _ \<Rightarrow> c) of
                  Inl e \<Rightarrow> Inl e
                | Inr (g', best_column, v) \<Rightarrow> Inr (g', Some best_column, v))
          else (case min_loop (\<lambda>g' a b. minimax g' (depth - 1) a b True) g valid_moves
                       alpha beta PosInf (case valid_moves of [] \<Rightarrow> 0 | c # _ \<Rightarrow> c) of
                  Inl e \<Rightarrow> Inl e
                | Inr (g', best_column, v) \<Rightarrow> Inr (g', Some best_column, v))))"

declare minimax.simps [simp del]

text \<open>
  The two scans of \<open>get_ai_move\<close>: try \<open>player\<close>'s piece in each column of the list, undo
  it, and return the first column where \<open>check_winner(player)\<close> held.
\<close>

fun scan_moves :: "ConnectFour \<Rightarrow> int list \<Rightarrow> int \<Rightarrow> error + (ConnectFour \<times> int option)" where
  "scan_moves g [] player = Inr (g, None)"
| "scan_moves g (col # rest) player =
     (case get_next_open_row g col of
        Inl e \<Rightarrow> Inl e
      | Inr row \<Rightarrow>
     (case set_cell g row col player of
        Inl e \<Rightarrow> Inl e
      | Inr g1 \<Rightarrow>
     (case check_winner g1 player of
        Inl e \<Rightarrow> Inl e
      | Inr won \<Rightarrow>
          if won
          then (case set_cell g1 row col 0 of
                  Inl e \<Rightarrow> Inl e
                | Inr g2 \<Rightarrow> Inr (g2, Some col))
          else (case set_cell g1 row col 0 of
                  Inl e \<Rightarrow> Inl e
                | Inr g2 \<Rightarrow> scan_moves g2 rest player))))"

text \<open>\<open>get_ai_move(depth)\<close>: the game after the call and the returned column.\<close>

definition get_ai_move :: "ConnectFour \<Rightarrow> nat \<Rightarrow> error + (ConnectFour \<times> int option)" where
  "get_ai_move g depth =
     (case get_valid_moves g of
        Inl e \<Rightarrow> Inl e
      | Inr moves2 \<Rightarrow>
     (case scan_moves g moves2 2 of
        Inl e \<Rightarrow> Inl e
      | Inr (g1, Some col) \<Rightarrow> Inr (g1, Some col)
      | Inr (g1, None) \<Rightarrow>
     (case get_valid_moves g1 of
        Inl e \<Rightarrow> Inl e
      | Inr moves1 \<Rightarrow>
     (case scan_moves g1 moves1 1 of
        Inl e \<Rightarrow> Inl e
      | Inr (g2, Some col) \<Rightarrow> Inr (g2, Some col)
      | Inr (g2, None) \<Rightarrow>
     (case minimax g2 depth NegInf PosInf True of
        Inl e \<Rightarrow> Inl e
      | Inr (g3, column, v) \<Rightarrow> Inr (g3, column))))))"

section \<open>Exhaustive minimax\<close>

text \<open>
  The search the specification compares \<open>minimax\<close> with: the same recursion and the same
  two loops, with the pruning test \<open>if alpha >= beta: break\<close> removed, so that every valid
  column of every node down to the depth bound is visited.
\<close>

fun max_loop_all ::
  "(ConnectFour \<Rightarrow> score \<Rightarrow> score \<Rightarrow> error + (ConnectFour \<times> int option \<times> score)) \<Rightarrow>
   ConnectFour \<Rightarrow> int list \<Rightarrow> score \<Rightarrow> score \<Rightarrow> score \<Rightarrow> int \<Rightarrow>
   error + (ConnectFour \<times> int \<times> score)" where
  "max_loop_all search g [] alpha beta v best = Inr (g, best, v)"
| "max_loop_all search g (col # rest) alpha beta v best =
     (case get_next_open_row g col of
        Inl e \<Rightarrow> Inl e
      | Inr row \<Rightarrow>
     (case set_cell g row col 2 of
        Inl e \<Rightarrow> Inl e
      | Inr g1 \<Rightarrow>
     (case search g1 alpha beta of
        Inl e \<Rightarrow> Inl e
      | Inr (g2, _, new_score) \<Rightarrow>
     (case set_cell g2 row col 0 of
        Inl e \<Rightarrow> Inl e
      | Inr g3 \<Rightarrow>
          (let v' = (if new_score > v then new_score else v);
               best' = (if new_score > v then col else best);
               alpha' = max alpha v'
           in max_loop_all search g3 rest alpha' beta v' best')))))"

fun min_loop_all ::
  "(ConnectFour \<Rightarrow> score \<Rightarrow> score \<Rightarrow> error + (ConnectFour \<times> int option \<times> score)) \<Rightarrow>
   ConnectFour \<Rightarrow> int list \<Rightarrow> score \<Rightarrow> score \<Rightarrow> score \<Rightarrow> int \<Rightarrow>
   error + (ConnectFour \<times> int \<times> score)" where
  "min_loop_all search g [] alpha beta v best = Inr (g, best, v)"
| "min_loop_all search g (col # rest) alpha beta v best =
     (case get_next_open_row g col of
        Inl e \<Rightarrow> Inl e
      | Inr row \<Rightarrow>
     (case set_cell g row col 1 of
        Inl e \<Rightarrow> Inl e
      | Inr g1 \<Rightarrow>
     (case search g1 alpha beta of
        Inl e \<Rightarrow> Inl e
      | Inr (g2, _, new_score) \<Rightarrow>
     (case set_cell g2 row col 0 of
        Inl e \<Rightarrow> Inl e
      | Inr g3 \<Rightarrow>
          (let v' = (if new_score < v then new_score else v);
               best' = (if new_score < v then col else best);
               beta' = min beta v'
           in min_loop_all search g3 rest alpha beta' v' best')))))"

fun minimax_exhaustive ::
  "ConnectFour \<Rightarrow> nat \<Rightarrow> score \<Rightarrow> score \<Rightarrow> bool \<Rightarrow> error + (ConnectFour \<times> int option \<times> score)" where
  "minimax_exhaustive g depth alpha beta maximizing_player =
     (case get_valid_moves g of
        Inl e \<Rightarrow> Inl e
      | Inr valid_moves \<Rightarrow>
     (case is_terminal g of
        Inl e \<Rightarrow> Inl e
      | Inr terminal \<Rightarrow>
          if depth = 0 \<or> terminal
          then (case leaf_score g of Inl e \<Rightarrow> Inl e | Inr s \<Rightarrow> Inr (g, None, s))
          else if maximizing_player
          then (case max_loop_all (\<lambda>g' a b. minimax_exhaustive g' (depth - 1) a b False) g
                       valid_moves alpha beta NegInf
                       (case valid_moves of [] \<Rightarrow> 0 | c # _ \<Rightarrow> c) of
                  Inl e \<Rightarrow> Inl e
                | Inr (g', best_column, v) \<Rightarrow> Inr (g', Some best_column, v))
          else (case min_loop_all (\<lambda>g' a b. minimax_exhaustive g' (depth - 1) a b True) g
                       valid_moves alpha beta PosInf
                       (case valid_moves of [] \<Rightarrow> 0 | c # _ \<Rightarrow> c) of
                  Inl e \<Rightarrow> Inl e
                | Inr (g', best_column, v) \<Rightarrow> Inr (g', Some best_column, v))))"

declare minimax_exhaustive.simps [simp del]

section \<open>Grids as the constructor makes them, and the values the operations compute on them\<close>

text \<open>
  \<open>__init__\<close> builds \<open>rows\<close> lists of \<open>cols\<close> cells (none for a number that is not
  positive) and nothing changes the shape afterwards. On such a grid no index of the
  loops leaves the lists, and each operation has a value that the lemmas below compute:
  the definitions of this section are those values, used to state and prove the
  properties of the operations above.
\<close>

definition wf_board :: "ConnectFour \<Rightarrow> bool" where
  "wf_board g = (length (board g) = nat (rows g) \<and> list_all (\<lambda>r. length r = nat (cols g)) (board g))"

text \<open>A cell inside the grid, its content, and the grid with one cell assigned.\<close>

definition in_grid :: "ConnectFour \<Rightarrow> int \<Rightarrow> int \<Rightarrow> bool" where
  "in_grid g r c = (0 \<le> r \<and> r < rows g \<and> 0 \<le> c \<and> c < cols g)"

definition cell :: "ConnectFour \<Rightarrow> int \<Rightarrow> int \<Rightarrow> int" where
  "cell g r c = board g ! nat r ! nat c"

definition put :: "ConnectFour \<Rightarrow> int \<Rightarrow> int \<Rightarrow> int \<Rightarrow> ConnectFour" where
  "put g r c v = g\<lparr>board := (board g)[nat r := (board g ! nat r)[nat c := v]]\<rparr>"

text \<open>A grid with a top row, which \<open>is_valid_move\<close> reads.\<close>

definition playable :: "ConnectFour \<Rightarrow> bool" where
  "playable g = (wf_board g \<and> 0 < rows g)"

text \<open>The valid columns, the row a piece falls to, and the grid with the piece in it.\<close>

definition valid :: "ConnectFour \<Rightarrow> int \<Rightarrow> bool" where
  "valid g col = (0 \<le> col \<and> col < cols g \<and> cell g 0 col = 0)"

definition valid_cols :: "ConnectFour \<Rightarrow> int list" where
  "valid_cols g = filter (valid g) (range_py 0 (cols g))"

definition open_row :: "ConnectFour \<Rightarrow> int \<Rightarrow> int" where
  "open_row g col =
     (case find (\<lambda>r. cell g r col = 0) (rev (range_py 0 (rows g))) of
        None \<Rightarrow> - 1 | Some r \<Rightarrow> r)"

definition child :: "ConnectFour \<Rightarrow> int \<Rightarrow> int \<Rightarrow> ConnectFour" where
  "child g col p = put g (open_row g col) col p"

text \<open>A window whose four cells hold \<open>p\<close>; a winner; a full top row; the heuristic.\<close>

definition line_of :: "ConnectFour \<Rightarrow> int \<Rightarrow> (int \<times> int) list \<Rightarrow> bool" where
  "line_of g p w = list_all (\<lambda>(r, c). cell g r c = p) w"

definition all_windows :: "ConnectFour \<Rightarrow> (int \<times> int) list list" where
  "all_windows g =
     horizontal_windows g @ vertical_windows g @ diagonal_down_windows g @ diagonal_up_windows g"

definition won :: "ConnectFour \<Rightarrow> int \<Rightarrow> bool" where
  "won g p = list_ex (line_of g p) (all_windows g)"

definition full :: "ConnectFour \<Rightarrow> bool" where
  "full g = list_all (\<lambda>c. cell g 0 c \<noteq> 0) (range_py 0 (cols g))"

definition cells :: "ConnectFour \<Rightarrow> (int \<times> int) list \<Rightarrow> int list" where
  "cells g w = map (\<lambda>(r, c). cell g r c) w"

definition heuristic :: "ConnectFour \<Rightarrow> int \<Rightarrow> int" where
  "heuristic g p =
     int (count_list (cells g [(row, cols g div 2). row \<leftarrow> range_py 0 (rows g)]) p) * 3
     + sum_list (map (\<lambda>w. evaluate_window (cells g w) p) (all_windows g))"

text \<open>All the cells of a list of windows lie inside the grid.\<close>

definition windows_ok :: "ConnectFour \<Rightarrow> (int \<times> int) list list \<Rightarrow> bool" where
  "windows_ok g ws = (\<forall>w \<in> set ws. \<forall>(r, c) \<in> set w. in_grid g r c)"

text \<open>
  The search on values: the same recursion as \<open>minimax\<close> and its two loops, on grids
  that are built rather than updated in place.
\<close>

definition terminal :: "ConnectFour \<Rightarrow> bool" where
  "terminal g = (won g 1 \<or> won g 2 \<or> full g)"

definition leaf :: "ConnectFour \<Rightarrow> score" where
  "leaf g =
     (if won g 2 then Fin 1000000000
      else if won g 1 then Fin (- 1000000000)
      else if full g then Fin 0
      else Fin (heuristic g 2))"

fun ab_max ::
  "(ConnectFour \<Rightarrow> score \<Rightarrow> score \<Rightarrow> int option \<times> score) \<Rightarrow>
   ConnectFour \<Rightarrow> int list \<Rightarrow> score \<Rightarrow> score \<Rightarrow> score \<Rightarrow> int \<Rightarrow> int \<times> score" where
  "ab_max f g [] alpha beta v best = (best, v)"
| "ab_max f g (col # rest) alpha beta v best =
     (let s = snd (f (child g col 2) alpha beta);
          v' = (if s > v then s else v);
          best' = (if s > v then col else best);
          alpha' = max alpha v'
      in if alpha' \<ge> beta then (best', v') else ab_max f g rest alpha' beta v' best')"

fun ab_min ::
  "(ConnectFour \<Rightarrow> score \<Rightarrow> score \<Rightarrow> int option \<times> score) \<Rightarrow>
   ConnectFour \<Rightarrow> int list \<Rightarrow> score \<Rightarrow> score \<Rightarrow> score \<Rightarrow> int \<Rightarrow> int \<times> score" where
  "ab_min f g [] alpha beta v best = (best, v)"
| "ab_min f g (col # rest) alpha beta v best =
     (let s = snd (f (child g col 1) alpha beta);
          v' = (if s < v then s else v);
          best' = (if s < v then col else best);
          beta' = min beta v'
      in if alpha \<ge> beta' then (best', v') else ab_min f g rest alpha beta' v' best')"

fun ab :: "ConnectFour \<Rightarrow> nat \<Rightarrow> score \<Rightarrow> score \<Rightarrow> bool \<Rightarrow> int option \<times> score" where
  "ab g depth alpha beta maximizing =
     (if depth = 0 \<or> terminal g then (None, leaf g)
      else if maximizing
      then (case ab_max (\<lambda>g' a b. ab g' (depth - 1) a b False) g (valid_cols g)
                   alpha beta NegInf (case valid_cols g of [] \<Rightarrow> 0 | c # _ \<Rightarrow> c) of
              (best, v) \<Rightarrow> (Some best, v))
      else (case ab_min (\<lambda>g' a b. ab g' (depth - 1) a b True) g (valid_cols g)
                   alpha beta PosInf (case valid_cols g of [] \<Rightarrow> 0 | c # _ \<Rightarrow> c) of
              (best, v) \<Rightarrow> (Some best, v)))"

declare ab.simps [simp del]

text \<open>
  The minimax value of a position at a depth: the leaf score, or the greatest (least)
  value of the positions after the valid moves of the AI (of the human).
\<close>

fun exact :: "ConnectFour \<Rightarrow> nat \<Rightarrow> bool \<Rightarrow> score" where
  "exact g depth maximizing =
     (if depth = 0 \<or> terminal g then leaf g
      else if maximizing
      then fold max (map (\<lambda>c. exact (child g c 2) (depth - 1) False) (valid_cols g)) NegInf
      else fold min (map (\<lambda>c. exact (child g c 1) (depth - 1) True) (valid_cols g)) PosInf)"

declare exact.simps [simp del]

text \<open>
  What a search with the window from \<open>a\<close> to \<open>b\<close> promises of its result \<open>s\<close> when the
  minimax value is \<open>e\<close>: a result at or below \<open>a\<close> bounds the value from above, one at or
  above \<open>b\<close> bounds it from below, and one strictly inside the window is the value.
\<close>

definition tight :: "score \<Rightarrow> score \<Rightarrow> score \<Rightarrow> score \<Rightarrow> bool" where
  "tight a b s e = ((s \<le> a \<longrightarrow> e \<le> s) \<and> (b \<le> s \<longrightarrow> s \<le> e) \<and> (a < s \<and> s < b \<longrightarrow> s = e))"

text \<open>The column \<open>get_ai_move\<close> returns.\<close>

definition ai_choice :: "ConnectFour \<Rightarrow> nat \<Rightarrow> int option" where
  "ai_choice g depth =
     (case find (\<lambda>c. won (child g c 2) 2) (valid_cols g) of
        Some c \<Rightarrow> Some c
      | None \<Rightarrow>
          (case find (\<lambda>c. won (child g c 1) 1) (valid_cols g) of
             Some c \<Rightarrow> Some c
           | None \<Rightarrow> fst (ab g depth NegInf PosInf True)))"

section \<open>The specification's own words\<close>

text \<open>
  Four in a row as the specification words it: four consecutive cells of the grid, along
  a row, a column or either diagonal, that all hold the player's number. The line starts
  at (r, c) and steps by (dr, dc).
\<close>

definition four_in_a_row :: "ConnectFour \<Rightarrow> int \<Rightarrow> bool" where
  "four_in_a_row g p =
     (\<exists>r c dr dc. (dr, dc) \<in> {(0, 1), (1, 0), (1, 1), (1, - 1)} \<and>
        (\<forall>i \<in> {0..3}. in_grid g (r + i * dr) (c + i * dc) \<and> cell g (r + i * dr) (c + i * dc) = p))"

text \<open>
  The heuristic as the specification words it: the score of one window of four cells,
  where the opponent of \<open>p\<close> is \<open>3 - p\<close>, and the value of a grid, three times the number
  of \<open>p\<close>'s pieces in the middle column plus the scores of all the windows of four cells
  along the rows, the columns and the two diagonals.
\<close>

definition window_score :: "int list \<Rightarrow> int \<Rightarrow> int" where
  "window_score w p =
     (if count_list w p = 4 then 100
      else if count_list w p = 3 \<and> count_list w 0 = 1 then 5
      else if count_list w p = 2 \<and> count_list w 0 = 2 then 2
      else if count_list w (3 - p) = 3 \<and> count_list w 0 = 1 then - 4
      else 0)"

definition board_score :: "ConnectFour \<Rightarrow> int \<Rightarrow> int" where
  "board_score g p =
     3 * int (card {r. 0 \<le> r \<and> r < rows g \<and> cell g r (cols g div 2) = p})
     + (\<Sum>r = 0..<rows g. \<Sum>c = 0..<cols g - 3.
          window_score [cell g r c, cell g r (c + 1), cell g r (c + 2), cell g r (c + 3)] p)
     + (\<Sum>r = 0..<rows g - 3. \<Sum>c = 0..<cols g.
          window_score [cell g r c, cell g (r + 1) c, cell g (r + 2) c, cell g (r + 3) c] p)
     + (\<Sum>r = 0..<rows g - 3. \<Sum>c = 0..<cols g - 3.
          window_score
            [cell g r c, cell g (r + 1) (c + 1), cell g (r + 2) (c + 2), cell g (r + 3) (c + 3)] p)
     + (\<Sum>r = 0..<rows g - 3. \<Sum>c = 3..<cols g.
          window_score
            [cell g r c, cell g (r + 1) (c - 1), cell g (r + 2) (c - 2), cell g (r + 3) (c - 3)] p)"

text \<open>
  A sequence of \<open>make_move(col, player)\<close> calls from a given game. A call that raises
  leaves the grid as it was, and the sequence goes on from there.
\<close>

fun play :: "ConnectFour \<Rightarrow> (int \<times> int) list \<Rightarrow> ConnectFour" where
  "play g [] = g"
| "play g ((col, player) # rest) =
     (case make_move g col player of
        Inl e \<Rightarrow> play g rest
      | Inr (g', ok) \<Rightarrow> play g' rest)"

text \<open>
  The gravity invariant: in no column does a cell that holds a piece stand above (at a
  smaller row index than) an empty cell.
\<close>

definition settled :: "ConnectFour \<Rightarrow> bool" where
  "settled g =
     (\<forall>r r' c. in_grid g r c \<and> in_grid g r' c \<and> r < r' \<and> cell g r c \<noteq> 0 \<longrightarrow> cell g r' c \<noteq> 0)"

section \<open>Example positions\<close>

text \<open>A game on a given grid, as it stands after some moves; four small positions.\<close>

definition game_of :: "int list list \<Rightarrow> ConnectFour" where
  "game_of b =
     \<lparr>rows = int (length b), cols = (case b of [] \<Rightarrow> 0 | r # _ \<Rightarrow> int (length r)), board = b,
      current_player = 1, game_over = False, winner = None\<rparr>"

definition drawn_board :: ConnectFour where
  "drawn_board = game_of [[1, 1, 2, 2], [2, 2, 1, 1], [1, 1, 2, 2], [2, 2, 1, 1]]"

definition ai_wins_board :: ConnectFour where
  "ai_wins_board = game_of [[0, 0, 0, 0], [0, 0, 0, 0], [1, 1, 0, 1], [2, 2, 2, 2]]"

definition ai_can_win_board :: ConnectFour where
  "ai_can_win_board = game_of [[0, 0, 0, 0], [0, 0, 0, 0], [1, 1, 0, 0], [2, 2, 2, 0]]"

definition must_block_board :: ConnectFour where
  "must_block_board = game_of [[0, 0, 0, 0], [0, 0, 0, 0], [2, 2, 0, 0], [1, 1, 1, 0]]"

section \<open>The operations on a well-formed grid\<close>

lemma set_range_py: "set (range_py a b) = {a..<b}"
  by (auto simp: range_py_def)

lemma distinct_range_py: "distinct (range_py a b)"
  by (simp add: range_py_def)

lemma py_index_in: "0 \<le> i \<Longrightarrow> i < int n \<Longrightarrow> py_index n i = Inr (nat i)"
  by (simp add: py_index_def)

lemma wf_row_length: "wf_board g \<Longrightarrow> 0 \<le> r \<Longrightarrow> r < rows g \<Longrightarrow> length (board g ! nat r) = nat (cols g)"
  by (simp add: wf_board_def list_all_length)

lemma getitem_in: "0 \<le> i \<Longrightarrow> i < int (length xs) \<Longrightarrow> getitem xs i = Inr (xs ! nat i)"
  by (simp add: getitem_def py_index_in)

lemma setitem_in: "0 \<le> i \<Longrightarrow> i < int (length xs) \<Longrightarrow> setitem xs i v = Inr (xs[nat i := v])"
  by (simp add: setitem_def py_index_in)

lemma get_cell_in:
  assumes "wf_board g" "in_grid g r c"
  shows "get_cell g r c = Inr (cell g r c)"
proof -
  from assms have r: "0 \<le> r" "r < int (length (board g))"
    by (auto simp: wf_board_def in_grid_def)
  from assms have c: "0 \<le> c" "c < int (length (board g ! nat r))"
    by (auto simp: in_grid_def wf_row_length)
  show ?thesis
    by (simp add: get_cell_def getitem_in r c cell_def)
qed

lemma set_cell_in:
  assumes "wf_board g" "in_grid g r c"
  shows "set_cell g r c v = Inr (put g r c v)"
proof -
  from assms have r: "0 \<le> r" "r < int (length (board g))"
    by (auto simp: wf_board_def in_grid_def)
  from assms have c: "0 \<le> c" "c < int (length (board g ! nat r))"
    by (auto simp: in_grid_def wf_row_length)
  show ?thesis
    by (simp add: set_cell_def py_index_in setitem_in r c put_def)
qed

lemma wf_put: "wf_board g \<Longrightarrow> wf_board (put g r c v)"
proof (cases "nat r < length (board g)")
  case True
  assume "wf_board g"
  with True show ?thesis
    by (auto simp: wf_board_def put_def list_all_length nth_list_update)
next
  case False
  assume wf: "wf_board g"
  from False have "put g r c v = g"
    by (simp add: put_def list_update_beyond)
  with wf show ?thesis by simp
qed

lemma rows_put: "rows (put g r c v) = rows g" and cols_put: "cols (put g r c v) = cols g"
  by (simp_all add: put_def)

lemma in_grid_put: "in_grid (put g r c v) r' c' = in_grid g r' c'"
  by (simp add: in_grid_def rows_put cols_put)

lemma cell_put: "wf_board g \<Longrightarrow> in_grid g r c \<Longrightarrow> in_grid g r' c' \<Longrightarrow>
  cell (put g r c v) r' c' = (if r' = r \<and> c' = c then v else cell g r' c')"
  by (auto simp: cell_def put_def in_grid_def wf_board_def list_all_length nth_list_update)

lemma put_put_restore: "cell g r c = w \<Longrightarrow> put (put g r c v) r c w = g"
  by (cases "nat r < length (board g)") (auto simp: put_def cell_def list_update_beyond)

lemma horizontal_ok: "windows_ok g (horizontal_windows g)"
  by (auto simp: windows_ok_def horizontal_windows_def set_range_py in_grid_def)

lemma vertical_ok: "windows_ok g (vertical_windows g)"
  by (auto simp: windows_ok_def vertical_windows_def set_range_py in_grid_def)

lemma diagonal_down_ok: "windows_ok g (diagonal_down_windows g)"
  by (auto simp: windows_ok_def diagonal_down_windows_def set_range_py in_grid_def)

lemma diagonal_up_ok: "windows_ok g (diagonal_up_windows g)"
  by (auto simp: windows_ok_def diagonal_up_windows_def set_range_py in_grid_def)

lemma all_windows_ok: "windows_ok g (all_windows g)"
  using horizontal_ok [of g] vertical_ok [of g] diagonal_down_ok [of g] diagonal_up_ok [of g]
  by (auto simp: windows_ok_def all_windows_def)

lemma all_equal_pure:
  "wf_board g \<Longrightarrow> \<forall>(r, c) \<in> set w. in_grid g r c \<Longrightarrow> all_equal g w p = Inr (line_of g p w)"
  by (induction w) (auto simp: line_of_def get_cell_in)

lemma any_window_pure:
  "wf_board g \<Longrightarrow> windows_ok g ws \<Longrightarrow> any_window g ws p = Inr (list_ex (line_of g p) ws)"
  by (induction ws) (auto simp: all_equal_pure windows_ok_def)

lemma check_winner_pure: "wf_board g \<Longrightarrow> check_winner g p = Inr (won g p)"
  by (auto simp: check_winner_def any_window_pure horizontal_ok vertical_ok diagonal_down_ok
      diagonal_up_ok won_def all_windows_def)

lemma read_cells_pure:
  "wf_board g \<Longrightarrow> \<forall>(r, c) \<in> set w. in_grid g r c \<Longrightarrow> read_cells g w = Inr (cells g w)"
  by (induction w) (auto simp: cells_def get_cell_in)

lemma add_windows_pure:
  "wf_board g \<Longrightarrow> windows_ok g ws \<Longrightarrow>
   add_windows g ws p s = Inr (s + sum_list (map (\<lambda>w. evaluate_window (cells g w) p) ws))"
  by (induction ws arbitrary: s) (auto simp: read_cells_pure windows_ok_def)

lemma evaluate_board_pure:
  assumes "wf_board g" "0 < cols g \<or> rows g \<le> 0"
  shows "evaluate_board g p = Inr (heuristic g p)"
proof -
  have "\<forall>(r, c) \<in> set [(row, cols g div 2). row \<leftarrow> range_py 0 (rows g)]. in_grid g r c"
    using assms(2) by (auto simp: set_range_py in_grid_def)
  then have "read_cells g [(row, cols g div 2). row \<leftarrow> range_py 0 (rows g)]
      = Inr (cells g [(row, cols g div 2). row \<leftarrow> range_py 0 (rows g)])"
    using assms(1) by (rule read_cells_pure [rotated])
  then show ?thesis
    using assms(1)
    by (simp add: evaluate_board_def add_windows_pure horizontal_ok vertical_ok diagonal_down_ok
      diagonal_up_ok heuristic_def all_windows_def)
qed

lemma all_nonzero_pure:
  "playable g \<Longrightarrow> set cs \<subseteq> {0..<cols g} \<Longrightarrow>
   all_nonzero g cs = Inr (list_all (\<lambda>c. cell g 0 c \<noteq> 0) cs)"
  by (induction cs) (auto simp: get_cell_in in_grid_def playable_def)

lemma is_board_full_pure: "playable g \<Longrightarrow> is_board_full g = Inr (full g)"
  by (simp add: is_board_full_def full_def all_nonzero_pure set_range_py)

lemma is_valid_move_pure: "playable g \<Longrightarrow> is_valid_move g col = Inr (valid g col)"
  by (auto simp: is_valid_move_def valid_def get_cell_in in_grid_def playable_def)

lemma filter_valid_pure: "playable g \<Longrightarrow> filter_valid g cs = Inr (filter (valid g) cs)"
  by (induction cs) (auto simp: is_valid_move_pure)

lemma get_valid_moves_pure: "playable g \<Longrightarrow> get_valid_moves g = Inr (valid_cols g)"
  by (simp add: get_valid_moves_def valid_cols_def filter_valid_pure)

lemma next_open_pure:
  "wf_board g \<Longrightarrow> 0 \<le> col \<Longrightarrow> col < cols g \<Longrightarrow> set rs \<subseteq> {0..<rows g} \<Longrightarrow>
   next_open g rs col = Inr (case find (\<lambda>r. cell g r col = 0) rs of None \<Rightarrow> - 1 | Some r \<Rightarrow> r)"
  by (induction rs) (auto simp: get_cell_in in_grid_def)

lemma get_next_open_row_pure:
  "wf_board g \<Longrightarrow> 0 \<le> col \<Longrightarrow> col < cols g \<Longrightarrow> get_next_open_row g col = Inr (open_row g col)"
  by (simp add: get_next_open_row_def open_row_def next_open_pure set_range_py)

lemma find_SomeD: "find P xs = Some x \<Longrightarrow> x \<in> set xs \<and> P x"
  by (induction xs) (auto split: if_splits)

lemma open_row_valid:
  assumes "playable g" "valid g col"
  shows "in_grid g (open_row g col) col" and "cell g (open_row g col) col = 0"
proof -
  have "0 \<in> set (rev (range_py 0 (rows g)))" "cell g 0 col = 0"
    using assms by (auto simp: set_range_py playable_def valid_def)
  then have "find (\<lambda>r. cell g r col = 0) (rev (range_py 0 (rows g))) \<noteq> None"
    by (auto simp: find_None_iff)
  then obtain r where r: "find (\<lambda>r. cell g r col = 0) (rev (range_py 0 (rows g))) = Some r"
    by auto
  then have "r \<in> set (rev (range_py 0 (rows g)))" "cell g r col = 0"
    by (auto dest: find_SomeD)
  with r assms show "in_grid g (open_row g col) col" and "cell g (open_row g col) col = 0"
    by (auto simp: open_row_def set_range_py in_grid_def valid_def)
qed

lemma playable_put: "playable g \<Longrightarrow> playable (put g r c v)"
  by (simp add: playable_def wf_put rows_put)

lemma playable_child: "playable g \<Longrightarrow> playable (child g col p)"
  by (simp add: child_def playable_put)

lemma is_terminal_pure: "playable g \<Longrightarrow> is_terminal g = Inr (terminal g)"
  by (simp add: is_terminal_def terminal_def check_winner_pure is_board_full_pure playable_def)

lemma not_full_cols: "\<not> full g \<Longrightarrow> 0 < cols g"
  by (auto simp: full_def list_all_iff set_range_py)

lemma leaf_score_pure: "playable g \<Longrightarrow> leaf_score g = Inr (leaf g)"
  by (simp add: leaf_score_def leaf_def check_winner_pure is_board_full_pure playable_def
      evaluate_board_pure not_full_cols)

lemma try_move:
  assumes "playable g" "valid g col"
  shows "get_next_open_row g col = Inr (open_row g col)"
    and "set_cell g (open_row g col) col p = Inr (child g col p)"
    and "set_cell (child g col p) (open_row g col) col 0 = Inr g"
proof -
  from assms show "get_next_open_row g col = Inr (open_row g col)"
    by (simp add: get_next_open_row_pure playable_def valid_def)
  from assms have ig: "in_grid g (open_row g col) col" and z: "cell g (open_row g col) col = 0"
    by (rule open_row_valid)+
  from assms ig show "set_cell g (open_row g col) col p = Inr (child g col p)"
    by (simp add: set_cell_in child_def playable_def)
  have "wf_board (child g col p)" "in_grid (child g col p) (open_row g col) col"
    using assms ig by (simp_all add: child_def wf_put in_grid_put playable_def)
  then have "set_cell (child g col p) (open_row g col) col 0
      = Inr (put (child g col p) (open_row g col) col 0)"
    by (rule set_cell_in)
  also have "put (child g col p) (open_row g col) col 0 = g"
    unfolding child_def using z by (rule put_put_restore)
  finally show "set_cell (child g col p) (open_row g col) col 0 = Inr g" .
qed

lemma max_loop_pure:
  assumes "playable g" "\<forall>c \<in> set cs. valid g c"
    and "\<And>g' a b. playable g' \<Longrightarrow> search g' a b = Inr (g', f g' a b)"
  shows "max_loop search g cs alpha beta v best = Inr (g, ab_max f g cs alpha beta v best)"
  using assms(2)
proof (induction cs arbitrary: alpha v best)
  case Nil
  show ?case by simp
next
  case (Cons col rest)
  then have col: "valid g col" by simp
  have s: "search (child g col 2) alpha beta = Inr (child g col 2, f (child g col 2) alpha beta)"
    using assms(1) by (simp add: assms(3) playable_child)
  show ?case
    using Cons
    by (simp add: try_move [OF assms(1) col] s Let_def split: prod.splits)
qed

lemma min_loop_pure:
  assumes "playable g" "\<forall>c \<in> set cs. valid g c"
    and "\<And>g' a b. playable g' \<Longrightarrow> search g' a b = Inr (g', f g' a b)"
  shows "min_loop search g cs alpha beta v best = Inr (g, ab_min f g cs alpha beta v best)"
  using assms(2)
proof (induction cs arbitrary: beta v best)
  case Nil
  show ?case by simp
next
  case (Cons col rest)
  then have col: "valid g col" by simp
  have s: "search (child g col 1) alpha beta = Inr (child g col 1, f (child g col 1) alpha beta)"
    using assms(1) by (simp add: assms(3) playable_child)
  show ?case
    using Cons
    by (simp add: try_move [OF assms(1) col] s Let_def split: prod.splits)
qed

lemma valid_cols_valid: "\<forall>c \<in> set (valid_cols g). valid g c"
  by (simp add: valid_cols_def)

lemma minimax_pure:
  "playable g \<Longrightarrow> minimax g depth alpha beta maximizing = Inr (g, ab g depth alpha beta maximizing)"
proof (induction depth arbitrary: g alpha beta maximizing)
  case 0
  then show ?case
    by (simp add: minimax.simps [of g 0] ab.simps [of g 0] get_valid_moves_pure is_terminal_pure
        leaf_score_pure)
next
  case (Suc d)
  have mx: "max_loop (\<lambda>g' a b. minimax g' d a b False) g (valid_cols g) alpha beta v best
      = Inr (g, ab_max (\<lambda>g' a b. ab g' d a b False) g (valid_cols g) alpha beta v best)" for v best
    using Suc.prems valid_cols_valid by (rule max_loop_pure) (rule Suc.IH)
  have mn: "min_loop (\<lambda>g' a b. minimax g' d a b True) g (valid_cols g) alpha beta v best
      = Inr (g, ab_min (\<lambda>g' a b. ab g' d a b True) g (valid_cols g) alpha beta v best)" for v best
    using Suc.prems valid_cols_valid by (rule min_loop_pure) (rule Suc.IH)
  show ?case
    using Suc.prems
    by (simp add: minimax.simps [of g "Suc d"] ab.simps [of g "Suc d"] get_valid_moves_pure
        is_terminal_pure leaf_score_pure mx mn split: prod.splits)
qed

lemma scan_moves_pure:
  assumes "playable g"
  shows "\<forall>c \<in> set cs. valid g c \<Longrightarrow>
    scan_moves g cs p = Inr (g, find (\<lambda>c. won (child g c p) p) cs)"
proof (induction cs)
  case Nil
  show ?case by simp
next
  case (Cons col rest)
  then have col: "valid g col" by simp
  have w: "check_winner (child g col p) p = Inr (won (child g col p) p)"
    using assms playable_child [of g col p] by (simp add: check_winner_pure playable_def)
  show ?case
    using Cons by (simp add: try_move [OF assms col] w)
qed

lemma get_ai_move_pure: "playable g \<Longrightarrow> get_ai_move g depth = Inr (g, ai_choice g depth)"
  by (simp add: get_ai_move_def ai_choice_def get_valid_moves_pure scan_moves_pure
      valid_cols_valid minimax_pure split: option.splits prod.splits)

lemma drop_piece_pure:
  "wf_board g \<Longrightarrow> 0 \<le> col \<Longrightarrow> col < cols g \<Longrightarrow> set rs \<subseteq> {0..<rows g} \<Longrightarrow>
   drop_piece g rs col p =
     Inr (case find (\<lambda>r. cell g r col = 0) rs of
            None \<Rightarrow> (g, False) | Some r \<Rightarrow> (put g r col p, True))"
  by (induction rs) (auto simp: get_cell_in set_cell_in in_grid_def)

lemma open_row_find:
  assumes "playable g" "valid g col"
  shows "find (\<lambda>r. cell g r col = 0) (rev (range_py 0 (rows g))) = Some (open_row g col)"
proof -
  have "0 \<in> set (rev (range_py 0 (rows g)))" "cell g 0 col = 0"
    using assms by (auto simp: set_range_py playable_def valid_def)
  then have "find (\<lambda>r. cell g r col = 0) (rev (range_py 0 (rows g))) \<noteq> None"
    by (auto simp: find_None_iff)
  then show ?thesis
    by (auto simp: open_row_def)
qed

lemma make_move_pure:
  assumes "playable g"
  shows "make_move g col p = Inr (if valid g col then (child g col p, True) else (g, False))"
proof (cases "valid g col")
  case True
  with assms have "drop_piece g (rev (range_py 0 (rows g))) col p = Inr (child g col p, True)"
    by (simp add: drop_piece_pure playable_def valid_def set_range_py open_row_find child_def)
  with assms True show ?thesis
    by (simp add: make_move_def is_valid_move_pure)
next
  case False
  with assms show ?thesis
    by (simp add: make_move_def is_valid_move_pure)
qed

lemma wf_init: "wf_board (init r c)"
  by (auto simp: wf_board_def init_def list_all_iff)

lemma rows_init: "rows (init r c) = r" and cols_init: "cols (init r c) = c"
  by (simp_all add: init_def)

lemma sorted_range_py: "sorted (range_py a b)"
  by (simp add: range_py_def)

lemma sorted_valid_cols: "sorted (valid_cols g)"
  by (simp add: valid_cols_def sorted_range_py sorted_wrt_filter)

lemma set_valid_cols: "set (valid_cols g) = {c. valid g c}"
  by (auto simp: valid_cols_def set_range_py valid_def)

lemma find_least:
  "sorted xs \<Longrightarrow> c \<in> set xs \<Longrightarrow> P c \<Longrightarrow> \<forall>x \<in> set xs. x < c \<longrightarrow> \<not> P x \<Longrightarrow>
   find P xs = Some (c::int)"
  by (induction xs) (auto simp: less_le)

lemma find_none: "\<forall>x \<in> set xs. \<not> P x \<Longrightarrow> find P xs = None"
  by (induction xs) auto

lemma find_in_set: "find P xs = Some x \<Longrightarrow> x \<in> set xs"
  by (induction xs) (auto split: if_splits)

lemma valid_cols_empty_full: "valid_cols g = [] \<Longrightarrow> full g"
  by (auto simp: valid_cols_def full_def list_all_iff filter_empty_conv set_range_py valid_def)

lemma full_no_valid: "full g \<Longrightarrow> \<not> valid g c"
  by (auto simp: full_def list_all_iff set_range_py valid_def)

lemma ab_leaf: "depth = 0 \<or> terminal g \<Longrightarrow> ab g depth alpha beta maximizing = (None, leaf g)"
  by (simp add: ab.simps [of g depth])

lemma ab_max_best: "fst (ab_max f g cs alpha beta v best) \<in> insert best (set cs)"
  by (induction cs arbitrary: alpha v best) (auto simp: Let_def)

lemma ab_min_best: "fst (ab_min f g cs alpha beta v best) \<in> insert best (set cs)"
  by (induction cs arbitrary: beta v best) (auto simp: Let_def)

lemma ab_inner_column:
  assumes "depth \<noteq> 0" "\<not> terminal g" "valid_cols g \<noteq> []"
  shows "\<exists>c. fst (ab g depth alpha beta maximizing) = Some c \<and> valid g c"
proof -
  obtain c0 rest where vc: "valid_cols g = c0 # rest"
    using assms(3) by (cases "valid_cols g") auto
  have mx: "fst (ab_max f g (valid_cols g) alpha beta v c0) \<in> set (valid_cols g)" for f v
    using ab_max_best [of f g "valid_cols g" alpha beta v c0] by (auto simp: vc)
  have mn: "fst (ab_min f g (valid_cols g) alpha beta v c0) \<in> set (valid_cols g)" for f v
    using ab_min_best [of f g "valid_cols g" alpha beta v c0] by (auto simp: vc)
  show ?thesis
  proof (cases maximizing)
    case True
    obtain b v where r: "ab_max (\<lambda>g' a b. ab g' (depth - 1) a b False) g (valid_cols g)
        alpha beta NegInf c0 = (b, v)"
      by (cases "ab_max (\<lambda>g' a b. ab g' (depth - 1) a b False) g (valid_cols g)
        alpha beta NegInf c0")
    with mx [of "\<lambda>g' a b. ab g' (depth - 1) a b False" NegInf] have "b \<in> set (valid_cols g)"
      by simp
    moreover have "ab g depth alpha beta maximizing = (Some b, v)"
      using assms(1,2) True r vc by (simp add: ab.simps [of g depth])
    ultimately show ?thesis by (simp add: set_valid_cols)
  next
    case False
    obtain b v where r: "ab_min (\<lambda>g' a b. ab g' (depth - 1) a b True) g (valid_cols g)
        alpha beta PosInf c0 = (b, v)"
      by (cases "ab_min (\<lambda>g' a b. ab g' (depth - 1) a b True) g (valid_cols g)
        alpha beta PosInf c0")
    with mn [of "\<lambda>g' a b. ab g' (depth - 1) a b True" PosInf] have "b \<in> set (valid_cols g)"
      by simp
    moreover have "ab g depth alpha beta maximizing = (Some b, v)"
      using assms(1,2) False r vc by (simp add: ab.simps [of g depth])
    ultimately show ?thesis by (simp add: set_valid_cols)
  qed
qed

lemma wf_drawn: "wf_board drawn_board" and rows_drawn: "0 < rows drawn_board"
  by (simp_all add: wf_board_def drawn_board_def game_of_def)

lemma range4: "range_py 0 4 = [0, 1, 2, 3]"
  by (simp add: range_py_def upto_rec1)

lemma ball4: "(\<forall>i \<in> {0..3::int}. P i) = (P 0 \<and> P 1 \<and> P 2 \<and> P 3)"
proof -
  have "{0..3::int} = {0, 1, 2, 3}" by auto
  then show ?thesis by simp
qed

lemma won_horizontal:
  "list_ex (line_of g p) (horizontal_windows g) =
   (\<exists>r c. \<forall>i \<in> {0..3}. in_grid g r (c + i) \<and> cell g r (c + i) = p)"
proof
  assume "list_ex (line_of g p) (horizontal_windows g)"
  then obtain r c where "[(r, (c + i)). i \<leftarrow> range_py 0 4] \<in> set (horizontal_windows g)"
    and "line_of g p [(r, (c + i)). i \<leftarrow> range_py 0 4]"
    by (auto simp: horizontal_windows_def list_ex_iff)
  with horizontal_ok [of g]
  have "\<forall>i \<in> {0..3}. in_grid g r (c + i) \<and> cell g r (c + i) = p"
    unfolding ball4 by (fastforce simp: windows_ok_def line_of_def range4)
  then show "\<exists>r c. \<forall>i \<in> {0..3}. in_grid g r (c + i) \<and> cell g r (c + i) = p"
    by blast
next
  assume "\<exists>r c. \<forall>i \<in> {0..3}. in_grid g r (c + i) \<and> cell g r (c + i) = p"
  then obtain r c where a: "\<forall>i \<in> {0..3}. in_grid g r (c + i) \<and> cell g r (c + i) = p"
    by blast
  then have "r \<in> set (range_py 0 (rows g))" "c \<in> set (range_py 0 (cols g - 3))"
    unfolding ball4 by (auto simp: set_range_py in_grid_def)
  then have "[(r, (c + i)). i \<leftarrow> range_py 0 4] \<in> set (horizontal_windows g)"
    by (auto simp: horizontal_windows_def intro!: bexI [of _ r] image_eqI [of _ _ c])
  moreover from a have "line_of g p [(r, (c + i)). i \<leftarrow> range_py 0 4]"
    unfolding ball4 by (simp add: line_of_def range4)
  ultimately show "list_ex (line_of g p) (horizontal_windows g)"
    by (auto simp: list_ex_iff)
qed

lemma won_vertical:
  "list_ex (line_of g p) (vertical_windows g) =
   (\<exists>r c. \<forall>i \<in> {0..3}. in_grid g (r + i) c \<and> cell g (r + i) c = p)"
proof
  assume "list_ex (line_of g p) (vertical_windows g)"
  then obtain r c where "[((r + i), c). i \<leftarrow> range_py 0 4] \<in> set (vertical_windows g)"
    and "line_of g p [((r + i), c). i \<leftarrow> range_py 0 4]"
    by (auto simp: vertical_windows_def list_ex_iff)
  with vertical_ok [of g]
  have "\<forall>i \<in> {0..3}. in_grid g (r + i) c \<and> cell g (r + i) c = p"
    unfolding ball4 by (fastforce simp: windows_ok_def line_of_def range4)
  then show "\<exists>r c. \<forall>i \<in> {0..3}. in_grid g (r + i) c \<and> cell g (r + i) c = p"
    by blast
next
  assume "\<exists>r c. \<forall>i \<in> {0..3}. in_grid g (r + i) c \<and> cell g (r + i) c = p"
  then obtain r c where a: "\<forall>i \<in> {0..3}. in_grid g (r + i) c \<and> cell g (r + i) c = p"
    by blast
  then have "r \<in> set (range_py 0 (rows g - 3))" "c \<in> set (range_py 0 (cols g))"
    unfolding ball4 by (auto simp: set_range_py in_grid_def)
  then have "[((r + i), c). i \<leftarrow> range_py 0 4] \<in> set (vertical_windows g)"
    by (auto simp: vertical_windows_def intro!: bexI [of _ r] image_eqI [of _ _ c])
  moreover from a have "line_of g p [((r + i), c). i \<leftarrow> range_py 0 4]"
    unfolding ball4 by (simp add: line_of_def range4)
  ultimately show "list_ex (line_of g p) (vertical_windows g)"
    by (auto simp: list_ex_iff)
qed

lemma won_diagonal_down:
  "list_ex (line_of g p) (diagonal_down_windows g) =
   (\<exists>r c. \<forall>i \<in> {0..3}. in_grid g (r + i) (c + i) \<and> cell g (r + i) (c + i) = p)"
proof
  assume "list_ex (line_of g p) (diagonal_down_windows g)"
  then obtain r c where "[((r + i), (c + i)). i \<leftarrow> range_py 0 4] \<in> set (diagonal_down_windows g)"
    and "line_of g p [((r + i), (c + i)). i \<leftarrow> range_py 0 4]"
    by (auto simp: diagonal_down_windows_def list_ex_iff)
  with diagonal_down_ok [of g]
  have "\<forall>i \<in> {0..3}. in_grid g (r + i) (c + i) \<and> cell g (r + i) (c + i) = p"
    unfolding ball4 by (fastforce simp: windows_ok_def line_of_def range4)
  then show "\<exists>r c. \<forall>i \<in> {0..3}. in_grid g (r + i) (c + i) \<and> cell g (r + i) (c + i) = p"
    by blast
next
  assume "\<exists>r c. \<forall>i \<in> {0..3}. in_grid g (r + i) (c + i) \<and> cell g (r + i) (c + i) = p"
  then obtain r c where a: "\<forall>i \<in> {0..3}. in_grid g (r + i) (c + i) \<and> cell g (r + i) (c + i) = p"
    by blast
  then have "r \<in> set (range_py 0 (rows g - 3))" "c \<in> set (range_py 0 (cols g - 3))"
    unfolding ball4 by (auto simp: set_range_py in_grid_def)
  then have "[((r + i), (c + i)). i \<leftarrow> range_py 0 4] \<in> set (diagonal_down_windows g)"
    by (auto simp: diagonal_down_windows_def intro!: bexI [of _ r] image_eqI [of _ _ c])
  moreover from a have "line_of g p [((r + i), (c + i)). i \<leftarrow> range_py 0 4]"
    unfolding ball4 by (simp add: line_of_def range4)
  ultimately show "list_ex (line_of g p) (diagonal_down_windows g)"
    by (auto simp: list_ex_iff)
qed

lemma won_diagonal_up:
  "list_ex (line_of g p) (diagonal_up_windows g) =
   (\<exists>r c. \<forall>i \<in> {0..3}. in_grid g (r + i) (c - i) \<and> cell g (r + i) (c - i) = p)"
proof
  assume "list_ex (line_of g p) (diagonal_up_windows g)"
  then obtain r c where "[((r + i), (c - i)). i \<leftarrow> range_py 0 4] \<in> set (diagonal_up_windows g)"
    and "line_of g p [((r + i), (c - i)). i \<leftarrow> range_py 0 4]"
    by (auto simp: diagonal_up_windows_def list_ex_iff)
  with diagonal_up_ok [of g]
  have "\<forall>i \<in> {0..3}. in_grid g (r + i) (c - i) \<and> cell g (r + i) (c - i) = p"
    unfolding ball4 by (fastforce simp: windows_ok_def line_of_def range4)
  then show "\<exists>r c. \<forall>i \<in> {0..3}. in_grid g (r + i) (c - i) \<and> cell g (r + i) (c - i) = p"
    by blast
next
  assume "\<exists>r c. \<forall>i \<in> {0..3}. in_grid g (r + i) (c - i) \<and> cell g (r + i) (c - i) = p"
  then obtain r c where a: "\<forall>i \<in> {0..3}. in_grid g (r + i) (c - i) \<and> cell g (r + i) (c - i) = p"
    by blast
  then have "r \<in> set (range_py 0 (rows g - 3))" "c \<in> set (range_py 3 (cols g))"
    unfolding ball4 by (auto simp: set_range_py in_grid_def)
  then have "[((r + i), (c - i)). i \<leftarrow> range_py 0 4] \<in> set (diagonal_up_windows g)"
    by (auto simp: diagonal_up_windows_def intro!: bexI [of _ r] image_eqI [of _ _ c])
  moreover from a have "line_of g p [((r + i), (c - i)). i \<leftarrow> range_py 0 4]"
    unfolding ball4 by (simp add: line_of_def range4)
  ultimately show "list_ex (line_of g p) (diagonal_up_windows g)"
    by (auto simp: list_ex_iff)
qed

lemma won_four_in_a_row: "won g p = four_in_a_row g p"
  unfolding won_def all_windows_def list_ex_append won_horizontal won_vertical won_diagonal_down
    won_diagonal_up four_in_a_row_def
  by (simp add: ex_disj_distrib conj_disj_distribR)

lemma find_rev_upto:
  "find P (rev [a..b]) = Some r \<Longrightarrow> r < r' \<Longrightarrow> r' \<le> b \<Longrightarrow> \<not> P r'"
proof (induction "nat (b - a + 1)" arbitrary: b)
  case 0
  then show ?case by simp
next
  case (Suc n)
  then have ab: "a \<le> b" by simp
  then have split: "[a..b] = [a..b - 1] @ [b]" by (simp add: upto_rec2)
  show ?case
  proof (cases "P b")
    case True
    with Suc.prems split have "r = b" by simp
    with Suc.prems show ?thesis by simp
  next
    case False
    with Suc.prems split have f: "find P (rev [a..b - 1]) = Some r" by simp
    show ?thesis
    proof (cases "r' = b")
      case True
      with False show ?thesis by simp
    next
      case False
      with Suc.prems have "r' \<le> b - 1" by simp
      moreover from Suc.hyps(2) have "n = nat (b - 1 - a + 1)" by simp
      ultimately show ?thesis using Suc.hyps(1) f Suc.prems(2) by blast
    qed
  qed
qed

lemma open_row_lowest:
  assumes "playable g" "valid g col" "open_row g col < r'" "r' < rows g"
  shows "cell g r' col \<noteq> 0"
proof -
  have "find (\<lambda>r. cell g r col = 0) (rev [0..rows g - 1]) = Some (open_row g col)"
    using open_row_find [OF assms(1,2)] by (simp add: range_py_def)
  then show ?thesis
    using assms(3,4) find_rev_upto [of "\<lambda>r. cell g r col = 0" 0 "rows g - 1" "open_row g col" r']
    by simp
qed

lemma settled_child:
  assumes "playable g" "valid g col" "settled g"
  shows "settled (child g col p)"
  unfolding settled_def
proof (intro allI impI, elim conjE)
  fix r r' c
  let ?o = "open_row g col"
  assume a: "in_grid (child g col p) r c" "in_grid (child g col p) r' c" "r < r'"
    "cell (child g col p) r c \<noteq> 0"
  have wf: "wf_board g" using assms(1) by (simp add: playable_def)
  have ig: "in_grid g ?o col" and z: "cell g ?o col = 0"
    using assms(1,2) by (rule open_row_valid)+
  from a(1,2) have g1: "in_grid g r c" and g2: "in_grid g r' c"
    by (simp_all add: child_def in_grid_put)
  have c1: "cell (child g col p) r c = (if r = ?o \<and> c = col then p else cell g r c)"
    unfolding child_def using wf ig g1 by (rule cell_put)
  have c2: "cell (child g col p) r' c = (if r' = ?o \<and> c = col then p else cell g r' c)"
    unfolding child_def using wf ig g2 by (rule cell_put)
  show "cell (child g col p) r' c \<noteq> 0"
  proof (cases "c = col")
    case False
    with c1 c2 a(4) assms(3) g1 g2 a(3) show ?thesis
      by (auto simp: settled_def)
  next
    case True
    show ?thesis
    proof (cases "r' = ?o")
      case True
      with a(3) have "r \<noteq> ?o" by simp
      with c1 a(4) have "cell g r c \<noteq> 0" by simp
      with assms(3) g1 g2 a(3) have "cell g r' c \<noteq> 0" by (auto simp: settled_def)
      with z True \<open>c = col\<close> show ?thesis by simp
    next
      case False
      note nr' = this
      show ?thesis
      proof (cases "r = ?o")
        case True
        with a(3) g2 have "?o < r'" "r' < rows g" by (simp_all add: in_grid_def)
        with assms(1,2) have "cell g r' col \<noteq> 0" by (rule open_row_lowest)
        with c2 nr' \<open>c = col\<close> show ?thesis by simp
      next
        case False
        with c1 a(4) have "cell g r c \<noteq> 0" by simp
        with assms(3) g1 g2 a(3) have "cell g r' c \<noteq> 0" by (auto simp: settled_def)
        with c2 nr' show ?thesis by simp
      qed
    qed
  qed
qed

lemma make_move_cases:
  assumes "wf_board g" "make_move g col p = Inr (g', ok)"
  shows "g' = g \<or> (playable g \<and> valid g col \<and> g' = child g col p)"
proof (cases "playable g")
  case True
  with assms(2) show ?thesis
    by (auto simp: make_move_pure split: if_splits)
next
  case False
  with assms(1) have "board g = []" by (simp add: playable_def wf_board_def)
  then have "get_cell g 0 col = Inl IndexError"
    by (simp add: get_cell_def getitem_def py_index_def)
  with assms(2) show ?thesis
    by (auto simp: make_move_def is_valid_move_def split: if_splits)
qed

lemma settled_init: "settled (init n m)"
  by (auto simp: settled_def cell_def init_def in_grid_def)

lemma play_settled: "wf_board g \<Longrightarrow> settled g \<Longrightarrow> wf_board (play g ms) \<and> settled (play g ms)"
proof (induction ms arbitrary: g)
  case Nil
  then show ?case by simp
next
  case (Cons m ms)
  obtain col p where m: "m = (col, p)" by (cases m)
  show ?case
  proof (cases "make_move g col p")
    case (Inl e)
    with Cons m show ?thesis by simp
  next
    case (Inr res)
    obtain g' ok where res: "res = (g', ok)" by (cases res)
    from make_move_cases [OF Cons.prems(1) Inr [unfolded res]]
    have "wf_board g' \<and> settled g'"
    proof
      assume "g' = g"
      with Cons.prems show ?thesis by simp
    next
      assume "playable g \<and> valid g col \<and> g' = child g col p"
      with Cons.prems(2) playable_child [of g col p] show ?thesis
        by (simp add: settled_child playable_def)
    qed
    with Cons.IH [of g'] Inr res m show ?thesis by simp
  qed
qed

lemma count_two: "a \<noteq> b \<Longrightarrow> count_list w a + count_list w b \<le> length w"
  by (induction w) auto

lemma evaluate_window_score:
  assumes "length w = 4"
  shows "evaluate_window w p = window_score w p"
proof -
  have ne: "3 - p \<noteq> p" by presburger
  from count_two [OF ne, of w] assms have "count_list w (3 - p) + count_list w p \<le> 4"
    by simp
  then show ?thesis
    by (auto simp: evaluate_window_def window_score_def Let_def)
qed

lemma count_list_map_card:
  "distinct xs \<Longrightarrow> count_list (map f xs) v = card {x \<in> set xs. f x = v}"
proof (induction xs)
  case Nil
  then show ?case by simp
next
  case (Cons x xs)
  have fin: "finite {y \<in> set xs. f y = v}" by simp
  have "{y \<in> set (x # xs). f y = v} =
      (if f x = v then insert x {y \<in> set xs. f y = v} else {y \<in> set xs. f y = v})"
    by auto
  moreover have "x \<notin> {y \<in> set xs. f y = v}" using Cons.prems by simp
  ultimately show ?case
    using Cons fin by simp
qed

lemma sum_list_map_concat:
  "sum_list (map F (concat xss)) = sum_list (map (\<lambda>xs. sum_list (map F xs)) xss)"
  by (induction xss) simp_all

lemma sum_list_grid:
  "distinct rs \<Longrightarrow> distinct cs \<Longrightarrow>
   sum_list (map F [W row col. row \<leftarrow> rs, col \<leftarrow> cs])
     = (\<Sum>row \<in> set rs. \<Sum>col \<in> set cs. F (W row col))"
  by (simp add: sum_list_map_concat comp_def sum_list_distinct_conv_sum_set)

lemma sum_windows:
  "sum_list (map (\<lambda>w. evaluate_window (cells g w) p)
       [[(fr row col i, fc row col i). i \<leftarrow> range_py 0 4]. row \<leftarrow> range_py a b, col \<leftarrow> range_py c d])
   = (\<Sum>row = a..<b. \<Sum>col = c..<d.
        window_score [cell g (fr row col 0) (fc row col 0), cell g (fr row col 1) (fc row col 1),
          cell g (fr row col 2) (fc row col 2), cell g (fr row col 3) (fc row col 3)] p)"
proof -
  have "sum_list (map (\<lambda>w. evaluate_window (cells g w) p)
       [[(fr row col i, fc row col i). i \<leftarrow> range_py 0 4]. row \<leftarrow> range_py a b, col \<leftarrow> range_py c d])
    = (\<Sum>row \<in> set (range_py a b). \<Sum>col \<in> set (range_py c d).
        evaluate_window (cells g [(fr row col i, fc row col i). i \<leftarrow> range_py 0 4]) p)"
    using distinct_range_py distinct_range_py by (rule sum_list_grid)
  then show ?thesis
    by (simp add: set_range_py range4 cells_def evaluate_window_score)
qed

lemma center_count:
  "count_list (cells g [(row, k). row \<leftarrow> range_py 0 (rows g)]) p
     = card {r. 0 \<le> r \<and> r < rows g \<and> cell g r k = p}"
proof -
  have "cells g [(row, k). row \<leftarrow> range_py 0 (rows g)]
      = map (\<lambda>r. cell g r k) (range_py 0 (rows g))"
    by (simp add: cells_def comp_def)
  moreover have "{x \<in> set (range_py 0 (rows g)). cell g x k = p}
      = {r. 0 \<le> r \<and> r < rows g \<and> cell g r k = p}"
    by (auto simp: set_range_py)
  ultimately show ?thesis
    by (simp add: count_list_map_card distinct_range_py)
qed

lemma heuristic_board_score: "heuristic g p = board_score g p"
proof -
  have h: "sum_list (map (\<lambda>w. evaluate_window (cells g w) p) (horizontal_windows g))
    = (\<Sum>r = 0..<rows g. \<Sum>c = 0..<cols g - 3.
          window_score [cell g r c, cell g r (c + 1), cell g r (c + 2), cell g r (c + 3)] p)"
    unfolding horizontal_windows_def
    using sum_windows [of g p "\<lambda>row col i. row" "\<lambda>row col i. col + i"] by simp
  have v: "sum_list (map (\<lambda>w. evaluate_window (cells g w) p) (vertical_windows g))
    = (\<Sum>r = 0..<rows g - 3. \<Sum>c = 0..<cols g.
          window_score [cell g r c, cell g (r + 1) c, cell g (r + 2) c, cell g (r + 3) c] p)"
    unfolding vertical_windows_def
    using sum_windows [of g p "\<lambda>row col i. row + i" "\<lambda>row col i. col"] by simp
  have d: "sum_list (map (\<lambda>w. evaluate_window (cells g w) p) (diagonal_down_windows g))
    = (\<Sum>r = 0..<rows g - 3. \<Sum>c = 0..<cols g - 3.
          window_score
            [cell g r c, cell g (r + 1) (c + 1), cell g (r + 2) (c + 2), cell g (r + 3) (c + 3)] p)"
    unfolding diagonal_down_windows_def
    using sum_windows [of g p "\<lambda>row col i. row + i" "\<lambda>row col i. col + i"] by simp
  have u: "sum_list (map (\<lambda>w. evaluate_window (cells g w) p) (diagonal_up_windows g))
    = (\<Sum>r = 0..<rows g - 3. \<Sum>c = 3..<cols g.
          window_score
            [cell g r c, cell g (r + 1) (c - 1), cell g (r + 2) (c - 2), cell g (r + 3) (c - 3)] p)"
    unfolding diagonal_up_windows_def
    using sum_windows [of g p "\<lambda>row col i. row + i" "\<lambda>row col i. col - i"] by simp
  show ?thesis
    by (simp add: heuristic_def board_score_def all_windows_def center_count h v d u)
qed

lemma max_loop_all_value:
  assumes "playable g" "\<forall>c \<in> set cs. valid g c"
    and "\<And>g' a b. playable g' \<Longrightarrow> \<exists>co. search g' a b = Inr (g', co, e g')"
  shows "\<exists>b. max_loop_all search g cs alpha beta v best
            = Inr (g, b, fold max (map (\<lambda>c. e (child g c 2)) cs) v)"
  using assms(2)
proof (induction cs arbitrary: alpha v best)
  case Nil
  show ?case by simp
next
  case (Cons col rest)
  then have col: "valid g col" by simp
  obtain co where s: "search (child g col 2) alpha beta = Inr (child g col 2, co, e (child g col 2))"
    using assms(3) [OF playable_child [OF assms(1)]] by blast
  have m: "(if v < x then x else v) = max x v" for x :: score
    by (auto simp: max_def)
  show ?case
    using Cons by (simp add: try_move [OF assms(1) col] s Let_def m)
qed

lemma min_loop_all_value:
  assumes "playable g" "\<forall>c \<in> set cs. valid g c"
    and "\<And>g' a b. playable g' \<Longrightarrow> \<exists>co. search g' a b = Inr (g', co, e g')"
  shows "\<exists>b. min_loop_all search g cs alpha beta v best
            = Inr (g, b, fold min (map (\<lambda>c. e (child g c 1)) cs) v)"
  using assms(2)
proof (induction cs arbitrary: beta v best)
  case Nil
  show ?case by simp
next
  case (Cons col rest)
  then have col: "valid g col" by simp
  obtain co where s: "search (child g col 1) alpha beta = Inr (child g col 1, co, e (child g col 1))"
    using assms(3) [OF playable_child [OF assms(1)]] by blast
  have m: "(if x < v then x else v) = min x v" for x :: score
    by (auto simp: min_def)
  show ?case
    using Cons by (simp add: try_move [OF assms(1) col] s Let_def m)
qed

lemma minimax_exhaustive_exact:
  "playable g \<Longrightarrow>
   \<exists>co. minimax_exhaustive g depth alpha beta maximizing = Inr (g, co, exact g depth maximizing)"
proof (induction depth arbitrary: g alpha beta maximizing)
  case 0
  then show ?case
    by (simp add: minimax_exhaustive.simps [of g 0] exact.simps [of g 0] get_valid_moves_pure
        is_terminal_pure leaf_score_pure)
next
  case (Suc d)
  obtain b1 where mx: "max_loop_all (\<lambda>g' a b. minimax_exhaustive g' d a b False) g (valid_cols g)
      alpha beta NegInf (case valid_cols g of [] \<Rightarrow> 0 | c # _ \<Rightarrow> c)
      = Inr (g, b1, fold max (map (\<lambda>c. exact (child g c 2) d False) (valid_cols g)) NegInf)"
    using max_loop_all_value [OF Suc.prems valid_cols_valid,
        of "\<lambda>g' a b. minimax_exhaustive g' d a b False" "\<lambda>g'. exact g' d False"] Suc.IH
    by blast
  obtain b2 where mn: "min_loop_all (\<lambda>g' a b. minimax_exhaustive g' d a b True) g (valid_cols g)
      alpha beta PosInf (case valid_cols g of [] \<Rightarrow> 0 | c # _ \<Rightarrow> c)
      = Inr (g, b2, fold min (map (\<lambda>c. exact (child g c 1) d True) (valid_cols g)) PosInf)"
    using min_loop_all_value [OF Suc.prems valid_cols_valid,
        of "\<lambda>g' a b. minimax_exhaustive g' d a b True" "\<lambda>g'. exact g' d True"] Suc.IH
    by blast
  show ?case
    using Suc.prems
    by (simp add: minimax_exhaustive.simps [of g "Suc d"] exact.simps [of g "Suc d"]
        get_valid_moves_pure is_terminal_pure leaf_score_pure mx mn)
qed

lemma fold_max_ge: "v \<le> fold max xs (v::score)"
proof (induction xs arbitrary: v)
  case Nil
  show ?case by simp
next
  case (Cons x xs)
  have "v \<le> max x v" by simp
  also have "max x v \<le> fold max xs (max x v)" by (rule Cons.IH)
  finally show ?case by simp
qed

lemma fold_min_le: "fold min xs (v::score) \<le> v"
proof (induction xs arbitrary: v)
  case Nil
  show ?case by simp
next
  case (Cons x xs)
  have "fold min xs (min x v) \<le> min x v" by (rule Cons.IH)
  also have "min x v \<le> v" by simp
  finally show ?case by simp
qed

lemma ab_max_tight:
  assumes "\<And>c a b. c \<in> set cs \<Longrightarrow> a < b \<Longrightarrow>
      tight a b (snd (f (child g c 2) a b)) (e (child g c 2))"
    and "alpha = max a0 v" "alpha < beta"
    and "v \<le> a0 \<longrightarrow> m \<le> v" "a0 < v \<longrightarrow> v = m"
  shows "tight a0 beta (snd (ab_max f g cs alpha beta v best))
           (fold max (map (\<lambda>c. e (child g c 2)) cs) m)"
  using assms
proof (induction cs arbitrary: alpha v best m)
  case Nil
  then show ?case by (auto simp: tight_def)
next
  case (Cons col rest)
  let ?s = "snd (f (child g col 2) alpha beta)"
  let ?e = "e (child g col 2)"
  let ?v = "if ?s > v then ?s else v"
  let ?b = "if ?s > v then col else best"
  have t: "tight alpha beta ?s ?e"
    using Cons.prems(1) [of col alpha beta] Cons.prems(3) by simp
  show ?case
  proof (cases "beta \<le> max alpha ?v")
    case True
    with Cons.prems(2,3) have sv: "?v = ?s" "beta \<le> ?s"
      by (auto simp: max_def split: if_splits)
    with t have "?s \<le> ?e" by (simp add: tight_def)
    also have "?e \<le> max ?e m" by simp
    also have "max ?e m \<le> fold max (map (\<lambda>c. e (child g c 2)) rest) (max ?e m)"
      by (rule fold_max_ge)
    finally have "?s \<le> fold max (map (\<lambda>c. e (child g c 2)) (col # rest)) m" by simp
    moreover have "snd (ab_max f g (col # rest) alpha beta v best) = ?s"
      using True sv by (simp add: Let_def)
    moreover have "a0 < beta" using Cons.prems(2,3) by simp
    ultimately show ?thesis
      using sv(2) unfolding tight_def by auto
  next
    case False
    have "tight a0 beta (snd (ab_max f g rest (max alpha ?v) beta ?v ?b))
           (fold max (map (\<lambda>c. e (child g c 2)) rest) (max ?e m))"
    proof (rule Cons.IH)
      show "tight a b (snd (f (child g c 2) a b)) (e (child g c 2))"
        if "c \<in> set rest" "a < b" for c a b
        using that Cons.prems(1) [of c a b] by simp
      show "max alpha ?v = max a0 ?v"
        using Cons.prems(2) by (auto simp: max_def)
      show "max alpha ?v < beta" using False by (simp only: not_le)
      show "?v \<le> a0 \<longrightarrow> max ?e m \<le> ?v"
        using t Cons.prems(2,4,5) unfolding tight_def by (auto simp: max_def split: if_splits)
      show "a0 < ?v \<longrightarrow> ?v = max ?e m"
        using t Cons.prems(2,4,5) False unfolding tight_def
        by (auto simp: max_def split: if_splits)
    qed
    moreover have "snd (ab_max f g (col # rest) alpha beta v best)
        = snd (ab_max f g rest (max alpha ?v) beta ?v ?b)"
      using False by (simp add: Let_def)
    ultimately show ?thesis by simp
  qed
qed

lemma ab_min_tight:
  assumes "\<And>c a b. c \<in> set cs \<Longrightarrow> a < b \<Longrightarrow>
      tight a b (snd (f (child g c 1) a b)) (e (child g c 1))"
    and "beta = min b0 v" "alpha < beta"
    and "b0 \<le> v \<longrightarrow> v \<le> m" "v < b0 \<longrightarrow> v = m"
  shows "tight alpha b0 (snd (ab_min f g cs alpha beta v best))
           (fold min (map (\<lambda>c. e (child g c 1)) cs) m)"
  using assms
proof (induction cs arbitrary: beta v best m)
  case Nil
  then show ?case by (auto simp: tight_def)
next
  case (Cons col rest)
  let ?s = "snd (f (child g col 1) alpha beta)"
  let ?e = "e (child g col 1)"
  let ?v = "if ?s < v then ?s else v"
  let ?b = "if ?s < v then col else best"
  have t: "tight alpha beta ?s ?e"
    using Cons.prems(1) [of col alpha beta] Cons.prems(3) by simp
  show ?case
  proof (cases "min beta ?v \<le> alpha")
    case True
    with Cons.prems(2,3) have sv: "?v = ?s" "?s \<le> alpha"
      by (auto simp: min_def split: if_splits)
    have "fold min (map (\<lambda>c. e (child g c 1)) rest) (min ?e m) \<le> min ?e m"
      by (rule fold_min_le)
    also have "min ?e m \<le> ?e" by simp
    also from sv t have "?e \<le> ?s" by (simp add: tight_def)
    finally have "fold min (map (\<lambda>c. e (child g c 1)) (col # rest)) m \<le> ?s" by simp
    moreover have "snd (ab_min f g (col # rest) alpha beta v best) = ?s"
      using True sv by (simp add: Let_def)
    moreover have "alpha < b0" using Cons.prems(2,3) by simp
    ultimately show ?thesis
      using sv(2) unfolding tight_def by auto
  next
    case False
    have "tight alpha b0 (snd (ab_min f g rest alpha (min beta ?v) ?v ?b))
           (fold min (map (\<lambda>c. e (child g c 1)) rest) (min ?e m))"
    proof (rule Cons.IH)
      show "tight a b (snd (f (child g c 1) a b)) (e (child g c 1))"
        if "c \<in> set rest" "a < b" for c a b
        using that Cons.prems(1) [of c a b] by simp
      show "min beta ?v = min b0 ?v"
        using Cons.prems(2) by (auto simp: min_def)
      show "alpha < min beta ?v" using False by (simp only: not_le)
      show "b0 \<le> ?v \<longrightarrow> ?v \<le> min ?e m"
        using t Cons.prems(2,4,5) unfolding tight_def by (auto simp: min_def split: if_splits)
      show "?v < b0 \<longrightarrow> ?v = min ?e m"
        using t Cons.prems(2,4,5) False unfolding tight_def
        by (auto simp: min_def split: if_splits)
    qed
    moreover have "snd (ab_min f g (col # rest) alpha beta v best)
        = snd (ab_min f g rest alpha (min beta ?v) ?v ?b)"
      using False by (simp add: Let_def)
    ultimately show ?thesis by simp
  qed
qed

lemma NegInf_least: "NegInf \<le> x" and PosInf_greatest: "x \<le> PosInf"
  by (cases x; simp)+

lemma snd_with_column: "snd (case p of (best, v) \<Rightarrow> (Some best, v)) = snd p"
  by (cases p) simp

lemma ab_tight: "a < b \<Longrightarrow> tight a b (snd (ab g depth a b maximizing)) (exact g depth maximizing)"
proof (induction depth arbitrary: g a b maximizing)
  case 0
  show ?case by (simp add: ab.simps [of g 0] exact.simps [of g 0] tight_def)
next
  case (Suc d)
  show ?case
  proof (cases "terminal g")
    case True
    then show ?thesis
      by (simp add: ab.simps [of g "Suc d"] exact.simps [of g "Suc d"] tight_def)
  next
    case False
    show ?thesis
    proof (cases maximizing)
      case True
      have "tight a b (snd (ab_max (\<lambda>g' a b. ab g' d a b False) g (valid_cols g) a b NegInf best))
          (fold max (map (\<lambda>c. exact (child g c 2) d False) (valid_cols g)) NegInf)" for best
      proof (rule ab_max_tight [where e = "\<lambda>g'. exact g' d False"])
        show "tight a' b' (snd (ab (child g c 2) d a' b' False)) (exact (child g c 2) d False)"
          if "a' < b'" for c a' b'
          using that by (rule Suc.IH)
        show "a = max a NegInf" by (simp add: max_absorb1 NegInf_least)
        show "a < b" by (rule Suc.prems)
        show "NegInf \<le> a \<longrightarrow> NegInf \<le> NegInf" by simp
        show "a < NegInf \<longrightarrow> NegInf = NegInf" by simp
      qed
      with True False show ?thesis
        by (simp add: ab.simps [of g "Suc d"] exact.simps [of g "Suc d"] snd_with_column)
    next
      case mn: False
      have "tight a b (snd (ab_min (\<lambda>g' a b. ab g' d a b True) g (valid_cols g) a b PosInf best))
          (fold min (map (\<lambda>c. exact (child g c 1) d True) (valid_cols g)) PosInf)" for best
      proof (rule ab_min_tight [where e = "\<lambda>g'. exact g' d True"])
        show "tight a' b' (snd (ab (child g c 1) d a' b' True)) (exact (child g c 1) d True)"
          if "a' < b'" for c a' b'
          using that by (rule Suc.IH)
        show "b = min b PosInf" by (simp add: min_absorb1 PosInf_greatest)
        show "a < b" by (rule Suc.prems)
        show "b \<le> PosInf \<longrightarrow> PosInf \<le> PosInf" by simp
        show "PosInf < b \<longrightarrow> PosInf = PosInf" by simp
      qed
      with mn False show ?thesis
        by (simp add: ab.simps [of g "Suc d"] exact.simps [of g "Suc d"] snd_with_column)
    qed
  qed
qed

lemma tight_full_window: "tight NegInf PosInf s e \<Longrightarrow> s = e"
  by (cases s; cases e) (auto simp: tight_def less_score_def)

lemma ab_exact: "snd (ab g depth NegInf PosInf maximizing) = exact g depth maximizing"
proof -
  have "NegInf < PosInf" by (simp add: less_score_def)
  then show ?thesis by (intro tight_full_window ab_tight)
qed

section \<open>Properties of the engine\<close>

text \<open>
  C1. On a grid as the constructor makes it, with at least one row, a call of
  \<open>minimax\<close> (any depth, any window, either side) and a call of \<open>get_ai_move\<close> return
  without an error and leave the game, with every cell of the grid, as it was before the
  call: every trial piece of the search and of the two scans has been taken back.
\<close>

theorem search_restores_board:
  assumes "wf_board g" "0 < rows g"
  shows "(\<exists>res. minimax g depth alpha beta maximizing = Inr (g, res)) \<and>
         (\<exists>col. get_ai_move g depth = Inr (g, col))"
  using assms by (simp add: minimax_pure get_ai_move_pure playable_def)

theorem search_restores_board_witness:
  "wf_board (init 4 4) \<and> 0 < rows (init 4 4) \<and>
   (\<exists>res. minimax (init 4 4) 2 NegInf PosInf True = Inr (init 4 4, res)) \<and>
   (\<exists>col. get_ai_move (init 4 4) 2 = Inr (init 4 4, col))"
proof -
  have w: "wf_board (init 4 4)" and r: "0 < rows (init 4 4)"
    by (simp_all add: wf_init rows_init)
  from search_restores_board [OF w r, of 2 NegInf PosInf True] w r show ?thesis
    by blast
qed

text \<open>
  C2. On a grid as the constructor makes it, with at least one row, \<open>minimax\<close> called
  with the window from \<open>-inf\<close> to \<open>+inf\<close> and the same recursion without the pruning
  break both return without an error, leave the grid as it was, and return the same
  score, at every depth and for either side to move.
\<close>

theorem pruning_keeps_score:
  assumes "wf_board g" "0 < rows g"
  shows "\<exists>col col' s.
           minimax g depth NegInf PosInf maximizing = Inr (g, col, s) \<and>
           minimax_exhaustive g depth NegInf PosInf maximizing = Inr (g, col', s)"
proof -
  from assms have p: "playable g" by (simp add: playable_def)
  obtain co where x: "minimax_exhaustive g depth NegInf PosInf maximizing
      = Inr (g, co, exact g depth maximizing)"
    using minimax_exhaustive_exact [OF p] by blast
  have "minimax g depth NegInf PosInf maximizing
      = Inr (g, fst (ab g depth NegInf PosInf maximizing), exact g depth maximizing)"
    using p by (simp add: minimax_pure ab_exact [symmetric])
  with x show ?thesis by blast
qed

theorem pruning_keeps_score_witness:
  "wf_board ai_can_win_board \<and> 0 < rows ai_can_win_board \<and>
   minimax ai_can_win_board 2 NegInf PosInf False = Inr (ai_can_win_board, Some 3, Fin 8) \<and>
   (\<exists>col'. minimax_exhaustive ai_can_win_board 2 NegInf PosInf False
              = Inr (ai_can_win_board, col', Fin 8))"
proof -
  have w: "wf_board ai_can_win_board" and r: "0 < rows ai_can_win_board"
    by (simp_all add: wf_board_def ai_can_win_board_def game_of_def)
  have m: "minimax ai_can_win_board 2 NegInf PosInf False = Inr (ai_can_win_board, Some 3, Fin 8)"
    by code_simp
  from pruning_keeps_score [OF w r, of 2 False] m w r show ?thesis by auto
qed

text \<open>
  C3. When some valid column completes four in a row for the AI (player 2), that is
  \<open>make_move\<close> of a 2 into it succeeds and \<open>check_winner(2)\<close> then holds, and no column of
  a lower index does, \<open>get_ai_move\<close> returns that column, whatever the depth: the
  result comes from the first scan and does not depend on the search.
\<close>

theorem immediate_win_taken:
  assumes "wf_board g" "0 < rows g"
    and "make_move g c 2 = Inr (g', True)" "check_winner g' 2 = Inr True"
    and "\<forall>c' g''. c' < c \<longrightarrow> make_move g c' 2 = Inr (g'', True) \<longrightarrow> check_winner g'' 2 \<noteq> Inr True"
  shows "get_ai_move g depth = Inr (g, Some c)"
proof -
  from assms(1,2) have p: "playable g" by (simp add: playable_def)
  from assms(3) p have c: "valid g c" and g': "g' = child g c 2"
    by (auto simp: make_move_pure split: if_splits)
  have wfc: "wf_board (child g col 2)" for col
    using playable_child [OF p] by (simp add: playable_def)
  from assms(4) g' have w: "won (child g c 2) 2"
    by (simp add: check_winner_pure wfc)
  have "\<not> won (child g x 2) 2" if "x \<in> set (valid_cols g)" "x < c" for x
  proof -
    from that(1) have "valid g x" by (simp add: set_valid_cols)
    with p have "make_move g x 2 = Inr (child g x 2, True)" by (simp add: make_move_pure)
    with assms(5) that(2) have "check_winner (child g x 2) 2 \<noteq> Inr True" by blast
    then show ?thesis by (simp add: check_winner_pure wfc)
  qed
  then have "find (\<lambda>c. won (child g c 2) 2) (valid_cols g) = Some c"
    using c w by (intro find_least) (auto simp: sorted_valid_cols set_valid_cols)
  with p show ?thesis by (simp add: get_ai_move_pure ai_choice_def)
qed

theorem immediate_win_taken_witness:
  "wf_board ai_can_win_board \<and> 0 < rows ai_can_win_board \<and>
   make_move ai_can_win_board 3 2
     = Inr (game_of [[0, 0, 0, 0], [0, 0, 0, 0], [1, 1, 0, 0], [2, 2, 2, 2]], True) \<and>
   check_winner (game_of [[0, 0, 0, 0], [0, 0, 0, 0], [1, 1, 0, 0], [2, 2, 2, 2]]) 2 = Inr True \<and>
   get_ai_move ai_can_win_board 4 = Inr (ai_can_win_board, Some 3)"
proof -
  let ?g = ai_can_win_board
  have w: "wf_board ?g" and r: "0 < rows ?g"
    by (simp_all add: wf_board_def ai_can_win_board_def game_of_def)
  have m: "make_move ?g 3 2
     = Inr (game_of [[0, 0, 0, 0], [0, 0, 0, 0], [1, 1, 0, 0], [2, 2, 2, 2]], True)"
    by code_simp
  have c: "check_winner (game_of [[0, 0, 0, 0], [0, 0, 0, 0], [1, 1, 0, 0], [2, 2, 2, 2]]) 2 = Inr True"
    by code_simp
  have e: "(case make_move ?g k 2 of Inl e \<Rightarrow> True | Inr (g2, ok) \<Rightarrow> check_winner g2 2 = Inr False)"
    if "k = 0 \<or> k = 1 \<or> k = 2" for k
    using that by (elim disjE; hypsubst) code_simp+
  have n: "make_move ?g k 2 \<noteq> Inr (g2, True)" if "k < 0" for k g2
    using that by (simp add: make_move_def is_valid_move_def)
  have l: "\<forall>c' g''. c' < 3 \<longrightarrow> make_move ?g c' 2 = Inr (g'', True) \<longrightarrow> check_winner g'' 2 \<noteq> Inr True"
  proof (intro allI impI)
    fix c' :: int and g''
    assume lt: "c' < 3" and mv: "make_move ?g c' 2 = Inr (g'', True)"
    from n mv have "\<not> c' < 0" by blast
    with lt have "c' = 0 \<or> c' = 1 \<or> c' = 2" by linarith
    from e [OF this] mv show "check_winner g'' 2 \<noteq> Inr True" by simp
  qed
  from immediate_win_taken [OF w r m c l, of 4] w r m c show ?thesis by simp
qed

text \<open>
  C4. When no valid column completes four in a row for the AI, and some valid column
  would complete four in a row for the human (player 1), \<open>get_ai_move\<close> returns the
  lowest such column, whatever the depth.
\<close>

theorem immediate_block_taken:
  assumes "wf_board g" "0 < rows g"
    and "\<forall>c' g''. make_move g c' 2 = Inr (g'', True) \<longrightarrow> check_winner g'' 2 \<noteq> Inr True"
    and "make_move g c 1 = Inr (g', True)" "check_winner g' 1 = Inr True"
    and "\<forall>c' g''. c' < c \<longrightarrow> make_move g c' 1 = Inr (g'', True) \<longrightarrow> check_winner g'' 1 \<noteq> Inr True"
  shows "get_ai_move g depth = Inr (g, Some c)"
proof -
  from assms(1,2) have p: "playable g" by (simp add: playable_def)
  from assms(4) p have c: "valid g c" and g': "g' = child g c 1"
    by (auto simp: make_move_pure split: if_splits)
  have wfc: "wf_board (child g col q)" for col q
    using playable_child [OF p] by (simp add: playable_def)
  from assms(5) g' have w: "won (child g c 1) 1"
    by (simp add: check_winner_pure wfc)
  have "\<not> won (child g x 2) 2" if "x \<in> set (valid_cols g)" for x
  proof -
    from that have "valid g x" by (simp add: set_valid_cols)
    with p have "make_move g x 2 = Inr (child g x 2, True)" by (simp add: make_move_pure)
    with assms(3) have "check_winner (child g x 2) 2 \<noteq> Inr True" by blast
    then show ?thesis by (simp add: check_winner_pure wfc)
  qed
  then have n2: "find (\<lambda>c. won (child g c 2) 2) (valid_cols g) = None"
    by (intro find_none) auto
  have "\<not> won (child g x 1) 1" if "x \<in> set (valid_cols g)" "x < c" for x
  proof -
    from that(1) have "valid g x" by (simp add: set_valid_cols)
    with p have "make_move g x 1 = Inr (child g x 1, True)" by (simp add: make_move_pure)
    with assms(6) that(2) have "check_winner (child g x 1) 1 \<noteq> Inr True" by blast
    then show ?thesis by (simp add: check_winner_pure wfc)
  qed
  then have "find (\<lambda>c. won (child g c 1) 1) (valid_cols g) = Some c"
    using c w by (intro find_least) (auto simp: sorted_valid_cols set_valid_cols)
  with p n2 show ?thesis by (simp add: get_ai_move_pure ai_choice_def)
qed

theorem immediate_block_taken_witness:
  "wf_board must_block_board \<and> 0 < rows must_block_board \<and>
   make_move must_block_board 3 1
     = Inr (game_of [[0, 0, 0, 0], [0, 0, 0, 0], [2, 2, 0, 0], [1, 1, 1, 1]], True) \<and>
   check_winner (game_of [[0, 0, 0, 0], [0, 0, 0, 0], [2, 2, 0, 0], [1, 1, 1, 1]]) 1 = Inr True \<and>
   get_ai_move must_block_board 4 = Inr (must_block_board, Some 3)"
proof -
  let ?g = must_block_board
  have w: "wf_board ?g" and r: "0 < rows ?g"
    by (simp_all add: wf_board_def must_block_board_def game_of_def)
  have m: "make_move ?g 3 1
     = Inr (game_of [[0, 0, 0, 0], [0, 0, 0, 0], [2, 2, 0, 0], [1, 1, 1, 1]], True)"
    by code_simp
  have c: "check_winner (game_of [[0, 0, 0, 0], [0, 0, 0, 0], [2, 2, 0, 0], [1, 1, 1, 1]]) 1 = Inr True"
    by code_simp
  have e2: "(case make_move ?g k 2 of Inl e \<Rightarrow> True | Inr (g2, ok) \<Rightarrow> check_winner g2 2 = Inr False)"
    if "k = 0 \<or> k = 1 \<or> k = 2 \<or> k = 3" for k
    using that by (elim disjE; hypsubst) code_simp+
  have e1: "(case make_move ?g k 1 of Inl e \<Rightarrow> True | Inr (g2, ok) \<Rightarrow> check_winner g2 1 = Inr False)"
    if "k = 0 \<or> k = 1 \<or> k = 2" for k
    using that by (elim disjE; hypsubst) code_simp+
  have n: "make_move ?g k q \<noteq> Inr (g2, True)" if "k < 0 \<or> 4 \<le> k" for k q g2
    using that by (auto simp: make_move_def is_valid_move_def must_block_board_def game_of_def)
  have l2: "\<forall>c' g''. make_move ?g c' 2 = Inr (g'', True) \<longrightarrow> check_winner g'' 2 \<noteq> Inr True"
  proof (intro allI impI)
    fix c' :: int and g''
    assume mv: "make_move ?g c' 2 = Inr (g'', True)"
    from n mv have "\<not> (c' < 0 \<or> 4 \<le> c')" by blast
    then have "c' = 0 \<or> c' = 1 \<or> c' = 2 \<or> c' = 3" by linarith
    from e2 [OF this] mv show "check_winner g'' 2 \<noteq> Inr True" by simp
  qed
  have l1: "\<forall>c' g''. c' < 3 \<longrightarrow> make_move ?g c' 1 = Inr (g'', True) \<longrightarrow> check_winner g'' 1 \<noteq> Inr True"
  proof (intro allI impI)
    fix c' :: int and g''
    assume lt: "c' < 3" and mv: "make_move ?g c' 1 = Inr (g'', True)"
    from n mv have "\<not> c' < 0" by blast
    with lt have "c' = 0 \<or> c' = 1 \<or> c' = 2" by linarith
    from e1 [OF this] mv show "check_winner g'' 1 \<noteq> Inr True" by simp
  qed
  from immediate_block_taken [OF w r l2 m c l1, of 4] w r m c show ?thesis by simp
qed

text \<open>
  C5. \<open>minimax\<close> called at depth 0, or on a grid where a player has four in a row or the
  top row is full, returns no column and the score of the first case that applies:
  1000000000 when the AI has four in a row, else -1000000000 when the human has, else 0
  when the grid is full, else the value of \<open>evaluate_board(2)\<close>, whichever side is to
  move.
\<close>

theorem minimax_leaf:
  assumes "wf_board g" "0 < rows g"
    and "depth = 0 \<or> check_winner g 2 = Inr True \<or> check_winner g 1 = Inr True
         \<or> is_board_full g = Inr True"
  shows "if check_winner g 2 = Inr True
         then minimax g depth alpha beta maximizing = Inr (g, None, Fin 1000000000)
         else if check_winner g 1 = Inr True
         then minimax g depth alpha beta maximizing = Inr (g, None, Fin (- 1000000000))
         else if is_board_full g = Inr True
         then minimax g depth alpha beta maximizing = Inr (g, None, Fin 0)
         else (\<exists>s. evaluate_board g 2 = Inr s \<and>
                    minimax g depth alpha beta maximizing = Inr (g, None, Fin s))"
proof -
  from assms(1,2) have p: "playable g" by (simp add: playable_def)
  from assms(3) p have "depth = 0 \<or> terminal g"
    by (auto simp: terminal_def check_winner_pure is_board_full_pure playable_def)
  then have "minimax g depth alpha beta maximizing = Inr (g, None, leaf g)"
    using p by (simp add: minimax_pure ab_leaf)
  then show ?thesis
    using p
    by (simp add: check_winner_pure is_board_full_pure playable_def leaf_def
        evaluate_board_pure not_full_cols)
qed

theorem minimax_leaf_witness:
  "wf_board ai_wins_board \<and> 0 < rows ai_wins_board \<and> check_winner ai_wins_board 2 = Inr True \<and>
   minimax ai_wins_board 3 NegInf PosInf False = Inr (ai_wins_board, None, Fin 1000000000)"
proof -
  have w: "wf_board ai_wins_board" and r: "0 < rows ai_wins_board"
    by (simp_all add: wf_board_def ai_wins_board_def game_of_def)
  have c: "check_winner ai_wins_board 2 = Inr True" by code_simp
  then have d: "3 = (0::nat) \<or> check_winner ai_wins_board 2 = Inr True
      \<or> check_winner ai_wins_board 1 = Inr True \<or> is_board_full ai_wins_board = Inr True"
    by simp
  from minimax_leaf [OF w r d, of NegInf PosInf False] c w r show ?thesis by simp
qed

text \<open>
  C6. On a grid as the constructor makes it, with at least one column,
  \<open>evaluate_board(player)\<close> returns without an error, and its value is three times the
  number of \<open>player\<close>'s pieces in column \<open>cols // 2\<close> plus the sum over all windows of
  four cells (rows, columns, both diagonals) of: 100 for four of \<open>player\<close>'s pieces, 5 for
  three and one empty cell, 2 for two and two empty cells, -4 for three pieces of the
  opponent and one empty cell, 0 otherwise.
\<close>

theorem evaluate_board_score:
  "wf_board g \<Longrightarrow> 0 < cols g \<Longrightarrow> evaluate_board g p = Inr (board_score g p)"
  by (simp add: evaluate_board_pure heuristic_board_score)

theorem evaluate_board_score_witness:
  "wf_board ai_can_win_board \<and> 0 < cols ai_can_win_board \<and>
   evaluate_board ai_can_win_board 2 = Inr 8 \<and> board_score ai_can_win_board 2 = 8"
proof -
  have w: "wf_board ai_can_win_board" and c: "0 < cols ai_can_win_board"
    by (simp_all add: wf_board_def ai_can_win_board_def game_of_def)
  have e: "evaluate_board ai_can_win_board 2 = Inr 8"
    by code_simp
  from evaluate_board_score [OF w c, of 2] e w c show ?thesis by simp
qed

text \<open>
  C7. On a grid as the constructor makes it, \<open>check_winner(player)\<close> returns without an
  error, and returns \<open>True\<close> exactly when four consecutive cells along a row, a column or
  either diagonal all hold \<open>player\<close>.
\<close>

theorem check_winner_four_in_a_row:
  "wf_board g \<Longrightarrow> check_winner g p = Inr (four_in_a_row g p)"
  by (simp add: check_winner_pure won_four_in_a_row)

theorem check_winner_four_in_a_row_witness:
  "wf_board ai_wins_board \<and> check_winner ai_wins_board 2 = Inr True \<and>
   four_in_a_row ai_wins_board 2 \<and>
   check_winner ai_wins_board 1 = Inr False \<and> \<not> four_in_a_row ai_wins_board 1"
proof -
  have w: "wf_board ai_wins_board"
    by (simp add: wf_board_def ai_wins_board_def game_of_def)
  have a: "check_winner ai_wins_board 2 = Inr True"
    and b: "check_winner ai_wins_board 1 = Inr False"
    by code_simp+
  from check_winner_four_in_a_row [OF w, of 2] check_winner_four_in_a_row [OF w, of 1] a b w
  show ?thesis by simp
qed

text \<open>
  C8. After any sequence of \<open>make_move\<close> calls from the empty grid of any size, with any
  columns and players, no cell that holds a piece has an empty cell below it in its
  column: whenever a cell of a column is occupied, every cell of that column at a greater
  row index, down to the bottom row, is occupied as well.
\<close>

theorem gravity_after_moves:
  assumes "g = play (init n m) moves"
    and "in_grid g r c" "in_grid g r' c" "r < r'" "cell g r c \<noteq> 0"
  shows "cell g r' c \<noteq> 0"
  using play_settled [OF wf_init settled_init, of n m moves] assms
  by (auto simp: settled_def)

theorem gravity_after_moves_witness:
  "play (init 4 4) [(1, 1), (1, 2), (3, 1), (7, 2), (1, 1)]
     = game_of [[0, 0, 0, 0], [0, 1, 0, 0], [0, 2, 0, 0], [0, 1, 0, 1]] \<and>
   in_grid (game_of [[0, 0, 0, 0], [0, 1, 0, 0], [0, 2, 0, 0], [0, 1, 0, 1]]) 1 1 \<and>
   in_grid (game_of [[0, 0, 0, 0], [0, 1, 0, 0], [0, 2, 0, 0], [0, 1, 0, 1]]) 3 1 \<and>
   (1::int) < 3 \<and>
   cell (game_of [[0, 0, 0, 0], [0, 1, 0, 0], [0, 2, 0, 0], [0, 1, 0, 1]]) 1 1 \<noteq> 0 \<and>
   cell (game_of [[0, 0, 0, 0], [0, 1, 0, 0], [0, 2, 0, 0], [0, 1, 0, 1]]) 3 1 \<noteq> 0"
proof -
  let ?g = "game_of [[0, 0, 0, 0], [0, 1, 0, 0], [0, 2, 0, 0], [0, 1, 0, 1]]"
  have p: "?g = play (init 4 4) [(1, 1), (1, 2), (3, 1), (7, 2), (1, 1)]"
    by code_simp
  have a: "in_grid ?g 1 1" and b: "in_grid ?g 3 1"
    by (simp_all add: in_grid_def game_of_def)
  have l: "(1::int) < 3" by simp
  have n: "cell ?g 1 1 \<noteq> 0" by (simp add: cell_def game_of_def)
  from gravity_after_moves [OF p a b l n] p a b l n show ?thesis by simp
qed

text \<open>
  C9, as the specification states it: on a grid with no valid move the search returns
  the fallback column of \<open>valid_moves[0] if valid_moves else 0\<close>. It does not: such a grid
  is full, hence terminal, and \<open>minimax\<close> returns \<open>None\<close> for the column before the
  fallback is computed; \<open>get_ai_move\<close> passes the \<open>None\<close> on.
\<close>

theorem no_move_column_counterexample:
  "get_valid_moves drawn_board = Inr [] \<and>
   minimax drawn_board 4 NegInf PosInf True = Inr (drawn_board, None, Fin 0) \<and>
   minimax drawn_board 4 NegInf PosInf True \<noteq> Inr (drawn_board, Some 0, Fin 0) \<and>
   get_ai_move drawn_board 4 = Inr (drawn_board, None) \<and>
   get_ai_move drawn_board 4 \<noteq> Inr (drawn_board, Some 0)"
proof -
  have "get_valid_moves drawn_board = Inr []"
    and "minimax drawn_board 4 NegInf PosInf True = Inr (drawn_board, None, Fin 0)"
    and "get_ai_move drawn_board 4 = Inr (drawn_board, None)"
    by code_simp+
  then show ?thesis by simp
qed

text \<open>
  C9, amended: on a grid with no valid move, \<open>minimax\<close> returns without an error, with
  no column and the terminal score (1000000000 or -1000000000 when a player has four in
  a row, else 0), and \<open>get_ai_move\<close> returns \<open>None\<close>.
\<close>

theorem no_move_returns_none:
  assumes "wf_board g" "0 < rows g" "get_valid_moves g = Inr []"
  shows "minimax g depth alpha beta maximizing =
           Inr (g, None,
                if check_winner g 2 = Inr True then Fin 1000000000
                else if check_winner g 1 = Inr True then Fin (- 1000000000)
                else Fin 0)
         \<and> get_ai_move g depth = Inr (g, None)"
proof -
  from assms(1,2) have p: "playable g" by (simp add: playable_def)
  with assms(3) have e: "valid_cols g = []" by (simp add: get_valid_moves_pure)
  then have f: "full g" by (rule valid_cols_empty_full)
  then have t: "terminal g" by (simp add: terminal_def)
  have "minimax g depth alpha beta maximizing = Inr (g, None, leaf g)"
    using p t by (simp add: minimax_pure ab_leaf)
  moreover have "get_ai_move g depth = Inr (g, None)"
    using p t by (simp add: get_ai_move_pure ai_choice_def e ab_leaf)
  ultimately show ?thesis
    using p f by (simp add: check_winner_pure playable_def leaf_def)
qed

theorem no_move_returns_none_witness:
  "wf_board drawn_board \<and> 0 < rows drawn_board \<and> get_valid_moves drawn_board = Inr [] \<and>
   minimax drawn_board 2 (Fin 5) (Fin 9) False = Inr (drawn_board, None, Fin 0) \<and>
   get_ai_move drawn_board 2 = Inr (drawn_board, None)"
proof -
  have v: "get_valid_moves drawn_board = Inr []" by code_simp
  have w: "check_winner drawn_board 2 = Inr False" "check_winner drawn_board 1 = Inr False"
    by code_simp+
  from no_move_returns_none [OF wf_drawn rows_drawn v, of 2 "Fin 5" "Fin 9" False] w v
    wf_drawn rows_drawn
  show ?thesis by simp
qed

text \<open>
  C10. When neither player has four in a row, some column is not full and the depth is
  at least 1, \<open>get_ai_move\<close> returns a column, and \<open>is_valid_move\<close> holds of it.
\<close>

theorem get_ai_move_valid:
  assumes "wf_board g" "0 < rows g"
    and "check_winner g 1 = Inr False" "check_winner g 2 = Inr False"
    and "is_valid_move g c0 = Inr True" "0 < depth"
  shows "\<exists>c. get_ai_move g depth = Inr (g, Some c) \<and> is_valid_move g c = Inr True"
proof -
  from assms(1,2) have p: "playable g" by (simp add: playable_def)
  from assms(5) p have c0: "valid g c0" by (simp add: is_valid_move_pure)
  then have ne: "valid_cols g \<noteq> []"
    using set_valid_cols [of g] by auto
  from c0 have "\<not> full g" using full_no_valid by blast
  with assms(3,4) p have nt: "\<not> terminal g"
    by (simp add: terminal_def check_winner_pure playable_def)
  have "\<exists>c. ai_choice g depth = Some c \<and> valid g c"
  proof (cases "find (\<lambda>c. won (child g c 2) 2) (valid_cols g)")
    case (Some c)
    then have "valid g c" using find_in_set set_valid_cols by fastforce
    with Some show ?thesis by (simp add: ai_choice_def)
  next
    case None
    note n2 = this
    show ?thesis
    proof (cases "find (\<lambda>c. won (child g c 1) 1) (valid_cols g)")
      case (Some c)
      then have "valid g c" using find_in_set set_valid_cols by fastforce
      with Some n2 show ?thesis by (simp add: ai_choice_def)
    next
      case None
      with n2 ab_inner_column [OF _ nt ne, of depth NegInf PosInf True] assms(6)
      show ?thesis by (simp add: ai_choice_def)
    qed
  qed
  with p show ?thesis
    by (auto simp: get_ai_move_pure is_valid_move_pure)
qed

theorem get_ai_move_valid_witness:
  "wf_board (init 4 4) \<and> 0 < rows (init 4 4) \<and>
   check_winner (init 4 4) 1 = Inr False \<and> check_winner (init 4 4) 2 = Inr False \<and>
   is_valid_move (init 4 4) 0 = Inr True \<and>
   (\<exists>c. get_ai_move (init 4 4) 1 = Inr (init 4 4, Some c) \<and> is_valid_move (init 4 4) c = Inr True)"
proof -
  have w: "wf_board (init 4 4)" and r: "0 < rows (init 4 4)"
    by (simp_all add: wf_init rows_init)
  have c1: "check_winner (init 4 4) 1 = Inr False" and c2: "check_winner (init 4 4) 2 = Inr False"
    and v: "is_valid_move (init 4 4) 0 = Inr True"
    by code_simp+
  have d: "0 < (1::nat)" by simp
  from get_ai_move_valid [OF w r c1 c2 v d] w r c1 c2 v show ?thesis by blast
qed

end
